theory Spec2Isabelle
  imports Complex_Main "HOL-Library.AList" "HOL-Library.Multiset"
begin

section \<open>Shared vocabulary\<close>

type_synonym hash = string
type_synonym endpoint = string
type_synonym agentId = string

datatype error = Error string

section \<open>UndoOp (data/model/UndoOp.ts)\<close>

text \<open>
  A mutation op is either some reversible, non-undo op or an \<open>UndoOp\<close>. The fields of
  an \<open>UndoOp\<close> are the two arguments its constructor hands to the constructor of
  \<open>MutationOp\<close> (the target and the one-element set of the undone op) and the two fields
  \<open>targetOp\<close> and \<open>cascadeOf\<close>, each \<open>None\<close> while it is undefined.
\<close>

datatype mutation_op =
    is_ReversibleOp: ReversibleOp (rev_hash: hash)
  | is_UndoOp: UndoOp
      (undo_target: "hash option")
      (undo_superOps: "mutation_op list option")
      (targetOp: "mutation_op option")
      (cascadeOf: "mutation_op option")

text \<open>\<open>targetOp instanceof UndoOp\<close>; \<open>undefined instanceof UndoOp\<close> is false.\<close>

fun instanceof_UndoOp :: "mutation_op option \<Rightarrow> bool" where
  "instanceof_UndoOp None = False"
| "instanceof_UndoOp (Some t) = is_UndoOp t"

definition new_UndoOp ::
  "hash option \<Rightarrow> mutation_op option \<Rightarrow> mutation_op option \<Rightarrow> error + mutation_op" where
  "new_UndoOp target targetOp' cascadeOf' =
     (let superOps = (case targetOp' of None \<Rightarrow> None | Some t \<Rightarrow> Some [t]) in
      if instanceof_UndoOp targetOp'
      then Inl (Error ''And undo op can't be undone this way, please just re-issue the original op'')
      else Inr (UndoOp target superOps
                  (case targetOp' of None \<Rightarrow> None | Some t \<Rightarrow> Some t)
                  (case cascadeOf' of None \<Rightarrow> None | Some c \<Rightarrow> Some c)))"

section \<open>JavaScript arrays\<close>

text \<open>\<open>Array.prototype.indexOf\<close>: the first index holding the element, or \<open>-1\<close>.\<close>

fun indexOf_from :: "int \<Rightarrow> 'a list \<Rightarrow> 'a \<Rightarrow> int" where
  "indexOf_from i [] x = -1"
| "indexOf_from i (y # ys) x = (if y = x then i else indexOf_from (i + 1) ys x)"

definition indexOf :: "'a list \<Rightarrow> 'a \<Rightarrow> int" where
  "indexOf xs x = indexOf_from 0 xs x"

text \<open>
  \<open>Array.prototype.splice(start, deleteCount)\<close>, the array that is left: a negative
  start counts from the end, and both arguments are clamped to the array.
\<close>

definition splice :: "int \<Rightarrow> int \<Rightarrow> 'a list \<Rightarrow> 'a list" where
  "splice start deleteCount xs =
     (let len = int (length xs);
          actualStart = (if start < 0 then max (len + start) 0 else min start len);
          actualDeleteCount = min (max deleteCount 0) (len - actualStart)
      in take (nat actualStart) xs @ drop (nat (actualStart + actualDeleteCount)) xs)"

section \<open>JavaScript numbers\<close>

text \<open>
  A finite JavaScript number is the rational it denotes. A literal of the source and the
  result of an arithmetic operation are rounded to the nearest IEEE 754 double, ties to
  the even significand: 53 bits of significand, with the spacing \<open>2\<^sup>-\<^sup>1\<^sup>0\<^sup>7\<^sup>4\<close> of the
  subnormal numbers as the finest. Infinities and NaN are not represented; a product
  beyond the largest double keeps its rounded value.
\<close>

fun bit_length :: "nat \<Rightarrow> nat" where
  "bit_length n = (if n = 0 then 0 else Suc (bit_length (n div 2)))"

declare bit_length.simps [simp del]

definition pow2 :: "int \<Rightarrow> rat" where
  "pow2 e = (if e \<ge> 0 then 2 ^ nat e else 1 / 2 ^ nat (- e))"

text \<open>The exponent \<open>e\<close> with \<open>2\<^sup>e \<le> a < 2\<^sup>e\<^sup>+\<^sup>1\<close>, for a positive \<open>a\<close>.\<close>

definition binary_exponent :: "rat \<Rightarrow> int" where
  "binary_exponent a =
     (if a \<ge> 1 then int (bit_length (nat \<lfloor>a\<rfloor>)) - 1
      else - int (bit_length (nat (\<lceil>1 / a\<rceil> - 1))))"

definition round_half_even :: "rat \<Rightarrow> int" where
  "round_half_even q =
     (let f = \<lfloor>q\<rfloor>; r = q - of_int f
      in if r < 1 / 2 then f
         else if r > 1 / 2 then f + 1
         else if even f then f else f + 1)"

definition to_double :: "rat \<Rightarrow> rat" where
  "to_double x =
     (if x = 0 then 0
      else
        (let a = \<bar>x\<bar>;
             ulp = pow2 (max (binary_exponent a - 52) (- 1074))
         in sgn x * of_int (round_half_even (a / ulp)) * ulp))"

text \<open>The operator \<open>*\<close> on numbers.\<close>

definition js_mul :: "rat \<Rightarrow> rat \<Rightarrow> rat" where
  "js_mul x y = to_double (x * y)"

section \<open>StateGossipAgent (mesh/agents/state/StateGossipAgent.ts)\<close>

record gossip_params =
  peerGossipFraction :: rat
  peerGossipProb :: rat
  minGossipPeers :: int
  maxCachedPrevStates :: int
  newStateErrorRetries :: int
  newStateErrorDelay :: int
  maxGossipDelay :: int

definition default_gossip_params :: gossip_params where
  "default_gossip_params =
     \<lparr> peerGossipFraction = to_double (2 / 10), peerGossipProb = to_double (5 / 10),
       minGossipPeers = 4,
       maxCachedPrevStates = 50, newStateErrorRetries = 3, newStateErrorDelay = 1500,
       maxGossipDelay = 5000 \<rparr>"

datatype 'o gossip_message =
    SendFullState "(agentId \<times> hash) list"
  | SendStateObject agentId 'o int
  | RequestFullState
  | RequestStateObject agentId

text \<open>
  The fields of the agent, and \<open>outbox\<close>: the calls of \<open>sendMessageToPeer\<close> in the
  order they were made. State objects are of a type \<open>'o\<close>; their \<open>hash()\<close> and
  \<open>validate()\<close> are parameters of the functions that use them.
\<close>

record 'o gossip_state =
  params :: gossip_params
  trackedAgentIds :: "agentId set"
  localState :: "agentId \<rightharpoonup> hash"
  remoteState :: "endpoint \<rightharpoonup> (agentId \<rightharpoonup> hash)"
  localStateObjects :: "agentId \<rightharpoonup> 'o"
  remoteStateObjects :: "endpoint \<rightharpoonup> (agentId \<rightharpoonup> 'o)"
  previousStatesCache :: "agentId \<rightharpoonup> hash list"
  outbox :: "(endpoint \<times> 'o gossip_message) list"

definition new_StateGossipAgent :: "gossip_params \<Rightarrow> 'o gossip_state" where
  "new_StateGossipAgent p =
     \<lparr> params = p, trackedAgentIds = {}, localState = Map.empty, remoteState = Map.empty,
       localStateObjects = Map.empty, remoteStateObjects = Map.empty,
       previousStatesCache = Map.empty, outbox = [] \<rparr>"

definition trackAgentState :: "agentId \<Rightarrow> 'o gossip_state \<Rightarrow> 'o gossip_state" where
  "trackAgentState agentId s = s\<lparr>trackedAgentIds := insert agentId (trackedAgentIds s)\<rparr>"

text \<open>What the peer group agent provides: the current peers and \<open>params.maxPeers\<close>.\<close>

record peer_group =
  getPeers :: "endpoint list"
  maxPeers :: int

definition sendStateObject :: "int \<Rightarrow> endpoint \<Rightarrow> agentId \<Rightarrow> 'o gossip_state \<Rightarrow> 'o gossip_state" where
  "sendStateObject now peerEndpoint agentId s =
     (case localStateObjects s agentId of
        Some state \<Rightarrow>
          s\<lparr>outbox := outbox s @ [(peerEndpoint, SendStateObject agentId state now)]\<rparr>
      | None \<Rightarrow> s)"

definition cachePreviousStateHash :: "agentId \<Rightarrow> hash \<Rightarrow> 'o gossip_state \<Rightarrow> 'o gossip_state" where
  "cachePreviousStateHash agentId state s =
     (let prevStates = (case previousStatesCache s agentId of None \<Rightarrow> [] | Some ps \<Rightarrow> ps);
          idx = indexOf prevStates state;
          prevStates = (if idx \<ge> 0 then splice idx 1 prevStates else prevStates);
          maxLength = maxCachedPrevStates (params s) - 1;
          prevStates = (if int (length prevStates) > maxLength
                        then splice maxLength (int (length prevStates) - maxLength) prevStates
                        else prevStates)
      in s\<lparr>previousStatesCache := (previousStatesCache s)(agentId \<mapsto> state # prevStates)\<rparr>)"

definition stateHashIsInPreviousCache :: "agentId \<Rightarrow> hash \<Rightarrow> 'o gossip_state \<Rightarrow> bool" where
  "stateHashIsInPreviousCache agentId state s =
     (case previousStatesCache s agentId of
        None \<Rightarrow> False
      | Some cache \<Rightarrow> indexOf cache state \<ge> 0)"

text \<open>
  \<open>gossipNewState\<close>, with its loop over \<open>i = 0, ..., count - 1\<close>; \<open>count\<close> is at most
  the number of peers when the loop starts. \<open>Math.ceil\<close> is applied to the product as
  JavaScript computes it.
\<close>

definition gossipNewState ::
  "int \<Rightarrow> (endpoint list \<Rightarrow> endpoint list) \<Rightarrow> peer_group \<Rightarrow> agentId \<Rightarrow> endpoint option \<Rightarrow>
   'o gossip_state \<Rightarrow> 'o gossip_state" where
  "gossipNewState now shuffle pg agentId sender s =
     (let peers = getPeers pg;
          count = \<lceil>js_mul (of_int (maxPeers pg)) (peerGossipFraction (params s))\<rceil>;
          count = (if count < minGossipPeers (params s) then minGossipPeers (params s) else count);
          count = (if count > int (length peers) then int (length peers) else count);
          peers = shuffle peers
      in foldl (\<lambda>s i. if sender = None \<or> sender \<noteq> Some (peers ! i)
                       then sendStateObject now (peers ! i) agentId s else s)
               s [0 ..< nat count])"

definition localAgentStateUpdate ::
  "('o \<Rightarrow> hash) \<Rightarrow> int \<Rightarrow> (endpoint list \<Rightarrow> endpoint list) \<Rightarrow> peer_group \<Rightarrow> agentId \<Rightarrow> 'o \<Rightarrow>
   'o gossip_state \<Rightarrow> 'o gossip_state" where
  "localAgentStateUpdate H now shuffle pg agentId state s =
     (if agentId \<in> trackedAgentIds s then
        let hash = H state;
            currentState = localState s agentId;
            s = (case currentState of
                   None \<Rightarrow> s
                 | Some cur \<Rightarrow> if hash \<noteq> cur then cachePreviousStateHash agentId cur s else s);
            s = s\<lparr>localState := (localState s)(agentId \<mapsto> hash)\<rparr>;
            s = s\<lparr>localStateObjects := (localStateObjects s)(agentId \<mapsto> state)\<rparr>
        in gossipNewState now shuffle pg agentId None s
      else s)"

definition setRemoteState ::
  "endpoint \<Rightarrow> agentId \<Rightarrow> hash \<Rightarrow> 'o \<Rightarrow> 'o gossip_state \<Rightarrow> 'o gossip_state" where
  "setRemoteState ep agentId state stateObject s =
     (let peerState = (case remoteState s ep of None \<Rightarrow> Map.empty | Some ps \<Rightarrow> ps);
          s = s\<lparr>remoteState := (remoteState s)(ep \<mapsto> peerState(agentId \<mapsto> state))\<rparr>;
          peerStateObjects = (case remoteStateObjects s ep of None \<Rightarrow> Map.empty | Some ps \<Rightarrow> ps)
      in s\<lparr>remoteStateObjects :=
             (remoteStateObjects s)(ep \<mapsto> peerStateObjects(agentId \<mapsto> stateObject))\<rparr>)"

text \<open>
  A tracked agent's \<open>receiveRemoteState(sender, stateHash, state)\<close> either returns
  \<open>isNew\<close> or throws. The retries repeat the call with the same arguments, so an agent is
  given by the outcome of its first, second, ... call. The trace lists the calls made and
  the pauses (\<open>setTimeout\<close>) between them.
\<close>

datatype outcome = Returns bool | Throws error

datatype notify_event = CallReceiveRemoteState | Wait int

text \<open>
  The \<open>while\<close> loop in the \<open>catch\<close> block. The call inside it is not guarded by a
  \<open>try\<close>: when it throws, the exception leaves the function. \<open>k\<close> is the number of
  calls made so far.
\<close>

function retry_loop ::
  "gossip_params \<Rightarrow> (nat \<Rightarrow> outcome) \<Rightarrow> bool \<Rightarrow> int \<Rightarrow> bool \<Rightarrow> nat \<Rightarrow> notify_event list \<Rightarrow>
   (error + bool \<times> bool) \<times> notify_event list" where
  "retry_loop p agent valueReady retries isNew k tr =
     (if valueReady = False \<and> retries < newStateErrorRetries p then
        (case agent k of
           Throws e \<Rightarrow> (Inl e, tr @ [Wait (newStateErrorDelay p), CallReceiveRemoteState])
         | Returns b \<Rightarrow>
             retry_loop p agent True retries b (Suc k)
               (tr @ [Wait (newStateErrorDelay p), CallReceiveRemoteState]))
      else (Inr (isNew, valueReady), tr))"
  by pat_completeness auto
termination
  by (relation "measure (\<lambda>(p, agent, valueReady, retries, isNew, k, tr). if valueReady then 0 else 1)")
     auto

definition notifyAgentOfStateArrival ::
  "gossip_params \<Rightarrow> (agentId \<rightharpoonup> (nat \<Rightarrow> outcome)) \<Rightarrow> agentId \<Rightarrow>
   (error + bool) \<times> notify_event list" where
  "notifyAgentOfStateArrival p agents agentId =
     (case agents agentId of
        None \<Rightarrow> (Inl (Error ''Cannot find receiving agent.''), [])
      | Some stateAgent \<Rightarrow>
          (case stateAgent 0 of
             Returns b \<Rightarrow> (Inr b, [CallReceiveRemoteState])
           | Throws e \<Rightarrow>
               (case retry_loop p stateAgent False 0 False 1 [CallReceiveRemoteState] of
                  (Inl e', tr) \<Rightarrow> (Inl e', tr)
                | (Inr (isNew, valueReady), tr) \<Rightarrow>
                    if valueReady then (Inr isNew, tr)
                    else (Inl (Error ''Error processing remote state.''), tr))))"

text \<open>
  \<open>receiveStateObject\<close>. An exception of \<open>notifyAgentOfStateArrival\<close> is caught and
  logged, and leaves \<open>receivedOldState\<close> false.
\<close>

definition receiveStateObject ::
  "('o \<Rightarrow> hash) \<Rightarrow> ('o \<Rightarrow> bool) \<Rightarrow> int \<Rightarrow> (agentId \<rightharpoonup> (nat \<Rightarrow> outcome)) \<Rightarrow>
   endpoint \<Rightarrow> agentId \<Rightarrow> 'o \<Rightarrow> 'o gossip_state \<Rightarrow> 'o gossip_state" where
  "receiveStateObject H validate now agents sender agentId stateObj s =
     (if validate stateObj then
        let state = H stateObj;
            s = setRemoteState sender agentId state stateObj s;
            cacheHit = stateHashIsInPreviousCache agentId state s;
            receivedOldState =
              (if \<not> cacheHit then
                 (case fst (notifyAgentOfStateArrival (params s) agents agentId) of
                    Inr isNew \<Rightarrow> \<not> isNew
                  | Inl e \<Rightarrow> cacheHit)
               else cacheHit)
        in if receivedOldState \<and> localState s agentId \<noteq> Some state
           then sendStateObject now sender agentId s
           else s
      else s)"

text \<open>A sequence of \<open>cachePreviousStateHash\<close> calls, each with its agent and hash.\<close>

definition cache_calls :: "(agentId \<times> hash) list \<Rightarrow> 'o gossip_state \<Rightarrow> 'o gossip_state" where
  "cache_calls calls s = foldl (\<lambda>s (agentId, state). cachePreviousStateHash agentId state s) s calls"

text \<open>The number of \<open>receiveRemoteState\<close> calls in a trace.\<close>


definition calls_made :: "notify_event list \<Rightarrow> nat" where
  "calls_made tr = length (filter (\<lambda>e. e = CallReceiveRemoteState) tr)"

section \<open>TerminalOpsSyncAgent (mesh/agents/state/TerminalOpsSyncAgent.ts)\<close>

type_synonym secret = string

record sync_params =
  sendTimeout :: int
  receiveTimeout :: int
  incompleteOpTimeout :: int

definition default_sync_params :: sync_params where
  "default_sync_params = \<lparr> sendTimeout = 60, receiveTimeout = 90, incompleteOpTimeout = 3600 \<rparr>"

record ObjectRequest =
  req_hash :: hash
  dependencyChain :: "hash list"

record OwnershipProof =
  proof_hash :: hash
  ownershipProofHash :: hash

record movement =
  mv_timeout :: int
  mv_secret :: secret
  mv_dependencyChain :: "hash list"

text \<open>
  A JavaScript \<open>Map\<close> is an association list in insertion order: \<open>get\<close> is
  \<^const>\<open>map_of\<close>, \<open>set\<close> is \<^const>\<open>AList.update\<close>, \<open>delete\<close> is
  \<^const>\<open>AList.delete\<close> and \<open>size\<close> is the length (the keys of a \<open>Map\<close> are
  distinct).
\<close>

type_synonym ObjectMovements = "(hash \<times> (endpoint \<times> movement) list) list"

datatype dep_type = Subobject | Reference

record Dependency =
  dep_hash :: hash
  dep_path :: string
  dep_kind :: dep_type

text \<open>
  Of a literal's value the agent reads the class (\<open>value._class\<close>) and the hash of the
  \<open>targetObject\<close> field; \<open>lit_target\<close> is \<open>None\<close> when there is no such field.
\<close>

record Literal =
  lit_hash :: hash
  lit_class :: string
  lit_target :: "hash option"
  dependencies :: "Dependency list"

record 'o Context =
  rootHashes :: "hash list"
  literals :: "hash \<rightharpoonup> Literal"
  objects :: "hash \<rightharpoonup> 'o"

record LiteralContext =
  lc_rootHashes :: "hash list"
  lc_literals :: "hash \<rightharpoonup> Literal"

record 'o IncompleteOp =
  source :: endpoint
  op_context :: "'o Context"
  missingObjects :: "(hash \<times> ObjectRequest) list"
  timeout :: int

datatype 'o sync_message =
    RequestState hash
  | SendState hash 'o
  | RequestObjs hash "ObjectRequest list" secret
  | SendObjs hash LiteralContext "OwnershipProof list" secret

text \<open>
  The calls the agent makes to \<open>processReceivedObject\<close> and \<open>processIncompleteOp\<close>
  from \<open>receiveObjects\<close>, with their arguments. Both are asynchronous and are not
  awaited there; what they do in turn (rebuilding and saving the object, updating
  \<open>incompleteOps\<close> and the reverse index) is not part of this development.
\<close>

datatype 'o started_call =
    ProcessReceivedObject hash "'o Context"
  | ProcessIncompleteOp endpoint hash "'o Context" "ObjectRequest list"

text \<open>
  The fields of the agent; \<open>sent\<close> lists the calls of \<open>sendSyncMessageToPeer\<close> and
  \<open>started\<close> the calls above, in order.
\<close>

record 'o sync_state =
  syncParams :: sync_params
  objHash :: hash
  acceptedMutationOpClasses :: "string list"
  stateHash :: "hash option"
  outgoingObjects :: ObjectMovements
  incomingObjects :: ObjectMovements
  incompleteOps :: "(hash \<times> 'o IncompleteOp) list"
  opsForMissingObj :: "(hash \<times> hash list) list"
  sent :: "(endpoint \<times> 'o sync_message) list"
  started :: "'o started_call list"

definition new_TerminalOpsSyncAgent :: "hash \<Rightarrow> string list \<Rightarrow> sync_params \<Rightarrow> 'o sync_state" where
  "new_TerminalOpsSyncAgent objectHash accepted p =
     \<lparr> syncParams = p, objHash = objectHash, acceptedMutationOpClasses = accepted,
       stateHash = None, outgoingObjects = [], incomingObjects = [], incompleteOps = [],
       opsForMissingObj = [], sent = [], started = [] \<rparr>"

text \<open>
  What the agent uses of a hashed object of type \<open>'o\<close>: \<open>hash()\<close>, \<open>hash(seed)\<close>,
  \<open>getClassName()\<close>, the hash of its \<open>targetObject\<close> (\<open>None\<close> when it has none, as
  for an object that is no mutation op), its literal, and the literals of its subobjects.
\<close>

record 'o object_model =
  hash_of :: "'o \<Rightarrow> hash"
  keyed_hash :: "'o \<Rightarrow> secret \<Rightarrow> hash"
  getClassName :: "'o \<Rightarrow> string"
  targetObject_hash :: "'o \<Rightarrow> hash option"
  toLiteral :: "'o \<Rightarrow> Literal"
  subobjectLiterals :: "'o \<Rightarrow> Literal list"

text \<open>The store, as the agent reads it: \<open>load\<close> and \<open>loadLiteral\<close>.\<close>

record 'o store =
  load :: "hash \<rightharpoonup> 'o"
  loadLiteral :: "hash \<rightharpoonup> Literal"

text \<open>
  Modelled from the spec: \<open>MultiMap\<close> (util/multimap) is not among the sources. The
  reverse index maps a missing dependency to the incomplete ops waiting on it;
  \<open>delete(key, value)\<close> takes the value out of the key's set and drops a key whose set
  became empty.
\<close>

definition multimap_delete :: "hash \<Rightarrow> hash \<Rightarrow> (hash \<times> hash list) list \<Rightarrow> (hash \<times> hash list) list" where
  "multimap_delete key val mm =
     (case map_of mm key of
        None \<Rightarrow> mm
      | Some vals \<Rightarrow>
          (let vals' = removeAll val vals
           in if vals' = [] then AList.delete key mm else AList.update key vals' mm))"

definition shouldAcceptMutationOp :: "'o object_model \<Rightarrow> 'p sync_state \<Rightarrow> 'o \<Rightarrow> bool" where
  "shouldAcceptMutationOp om s op =
     (Some (objHash s) = targetObject_hash om op \<and>
      indexOf (acceptedMutationOpClasses s) (getClassName om op) \<ge> 0)"

text \<open>
  \<open>shouldAcceptMutationOpLiteral\<close> reads \<open>_hash\<close> of the literal's \<open>targetObject\<close>
  field, and throws when the literal has no such field.
\<close>

definition shouldAcceptMutationOpLiteral :: "'p sync_state \<Rightarrow> Literal \<Rightarrow> error + bool" where
  "shouldAcceptMutationOpLiteral s op =
     (case lit_target op of
        None \<Rightarrow> Inl (Error ''TypeError'')
      | Some t \<Rightarrow>
          Inr (objHash s = t \<and> indexOf (acceptedMutationOpClasses s) (lit_class op) \<ge> 0))"

definition insertObjectMovement ::
  "int \<Rightarrow> ObjectMovements \<Rightarrow> endpoint \<Rightarrow> hash \<Rightarrow> hash list \<Rightarrow> secret \<Rightarrow> int \<Rightarrow>
   bool \<times> ObjectMovements" where
  "insertObjectMovement now allMovements ep h chain sec tmo =
     (let (movement, allMovements) =
            (case map_of allMovements h of
               None \<Rightarrow> ([], AList.update h [] allMovements)
             | Some m \<Rightarrow> (m, allMovements))
      in if map_of movement ep \<noteq> None then (False, allMovements)
         else (True,
               AList.update h
                 (AList.update ep
                    \<lparr> mv_timeout = now + tmo * 1000, mv_secret = sec, mv_dependencyChain = chain \<rparr>
                    movement)
                 allMovements))"

definition expectIncomingObject ::
  "int \<Rightarrow> endpoint \<Rightarrow> hash \<Rightarrow> hash list \<Rightarrow> secret \<Rightarrow> 'o sync_state \<Rightarrow> bool \<times> 'o sync_state" where
  "expectIncomingObject now src h chain sec s =
     (let (r, m) = insertObjectMovement now (incomingObjects s) src h chain sec
                     (receiveTimeout (syncParams s))
      in (r, s\<lparr>incomingObjects := m\<rparr>))"

definition scheduleOutgoingObject ::
  "int \<Rightarrow> endpoint \<Rightarrow> hash \<Rightarrow> hash list \<Rightarrow> secret \<Rightarrow> 'o sync_state \<Rightarrow> bool \<times> 'o sync_state" where
  "scheduleOutgoingObject now dst h chain sec s =
     (let (r, m) = insertObjectMovement now (outgoingObjects s) dst h chain sec
                     (sendTimeout (syncParams s))
      in (r, s\<lparr>outgoingObjects := m\<rparr>))"

text \<open>
  One round of the loop of \<open>sendRequestObjsMessage\<close>, on the requests accepted so far and
  the agent.
\<close>

definition requestOne ::
  "int \<Rightarrow> secret \<Rightarrow> endpoint \<Rightarrow> ObjectRequest list \<times> 'o sync_state \<Rightarrow> ObjectRequest \<Rightarrow>
   ObjectRequest list \<times> 'o sync_state" where
  "requestOne now sec destination acc req =
     (let (newReqs, s) = acc;
          alreadyRequested =
            (case map_of (incomingObjects s) (req_hash req) of
               None \<Rightarrow> False
             | Some m \<Rightarrow> map_of m destination \<noteq> None);
          pendingReqs =
            (case map_of (incomingObjects s) (req_hash req) of
               None \<Rightarrow> 0
             | Some m \<Rightarrow> int (length m))
      in if \<not> alreadyRequested \<and> pendingReqs < 2 then
           (let (r, s) = expectIncomingObject now destination (req_hash req)
                           (dependencyChain req) sec s
            in if r then (newReqs @ [req], s) else (newReqs, s))
         else (newReqs, s))"

text \<open>\<open>now\<close> is \<open>Date.now()\<close> and \<open>sec\<close> the random secret drawn for the message.\<close>

definition sendRequestObjsMessage ::
  "int \<Rightarrow> secret \<Rightarrow> endpoint \<Rightarrow> ObjectRequest list \<Rightarrow> 'o sync_state \<Rightarrow> 'o sync_state" where
  "sendRequestObjsMessage now sec destination reqs s =
     (let (newReqs, s) = foldl (requestOne now sec destination) ([], s) reqs
      in if length newReqs > 0
         then s\<lparr>sent := sent s @ [(destination, RequestObjs (objHash s) newReqs sec)]\<rparr>
         else s)"

definition sendRequestStateMessage :: "endpoint \<Rightarrow> 'o sync_state \<Rightarrow> 'o sync_state" where
  "sendRequestStateMessage destination s =
     s\<lparr>sent := sent s @ [(destination, RequestState (objHash s))]\<rparr>"

subsection \<open>The periodic sweep\<close>

text \<open>The sweep of one movement table: stale endpoints go, then the hashes left without any.\<close>

definition sweepDestinations :: "int \<Rightarrow> (endpoint \<times> movement) list \<Rightarrow> (endpoint \<times> movement) list" where
  "sweepDestinations now destinations =
     (let outdatedEndpoints = map fst (filter (\<lambda>(ep, params). now > mv_timeout params) destinations)
      in foldl (\<lambda>d ep. AList.delete ep d) destinations outdatedEndpoints)"

definition sweepMovements :: "int \<Rightarrow> ObjectMovements \<Rightarrow> ObjectMovements" where
  "sweepMovements now objs =
     (let objs = map (\<lambda>(h, destinations). (h, sweepDestinations now destinations)) objs;
          outdated = map fst (filter (\<lambda>(h, destinations). length destinations = 0) objs)
      in foldl (\<lambda>m h. AList.delete h m) objs outdated)"

text \<open>
  The sweep of the incomplete ops. The test is \<open>incompleteOp.timeout > now\<close>, as in the
  source.
\<close>

definition sweepIncompleteOps :: "int \<Rightarrow> 'o sync_state \<Rightarrow> 'o sync_state" where
  "sweepIncompleteOps now s =
     (let timeouted = filter (\<lambda>(h, incompleteOp). timeout incompleteOp > now) (incompleteOps s);
          s = foldl (\<lambda>s (h, incompleteOp).
                       foldl (\<lambda>s depHash.
                                s\<lparr>opsForMissingObj := multimap_delete depHash h (opsForMissingObj s)\<rparr>)
                             s (map fst (missingObjects incompleteOp)))
                    s timeouted;
          timeoutedIncompleteOps = map fst timeouted
      in foldl (\<lambda>s h. s\<lparr>incompleteOps := AList.delete h (incompleteOps s)\<rparr>)
               s timeoutedIncompleteOps)"

definition opShippingInterval :: "int \<Rightarrow> 'o sync_state \<Rightarrow> 'o sync_state" where
  "opShippingInterval now s =
     (let s = s\<lparr>outgoingObjects := sweepMovements now (outgoingObjects s)\<rparr>;
          s = s\<lparr>incomingObjects := sweepMovements now (incomingObjects s)\<rparr>
      in sweepIncompleteOps now s)"

subsection \<open>Receiving a remote state\<close>

text \<open>The loop of \<open>receiveRemoteState\<close> over the peer's terminal ops.\<close>

definition checkTerminalOp ::
  "'o object_model \<Rightarrow> 'o store \<Rightarrow> 'p sync_state \<Rightarrow> hash list \<times> bool \<Rightarrow> hash \<Rightarrow> hash list \<times> bool" where
  "checkTerminalOp om st s acc opHash =
     (let (opsToFetch, badOps) = acc;
          alreadyFetching = (map_of (incompleteOps s) opHash \<noteq> None)
      in if \<not> alreadyFetching then
           (case load st opHash of
              None \<Rightarrow> (opsToFetch @ [opHash], badOps)
            | Some op \<Rightarrow>
                if \<not> shouldAcceptMutationOp om s op then (opsToFetch, True)
                else (opsToFetch, badOps))
         else (opsToFetch, badOps))"

text \<open>
  \<open>receiveRemoteState(sender, stateHash, state)\<close>. A state object is given by its hash
  and its terminal ops.
\<close>

record TerminalOpsState =
  state_hash :: hash
  terminalOps :: "hash list"

definition receiveRemoteState ::
  "'o object_model \<Rightarrow> 'o store \<Rightarrow> int \<Rightarrow> secret \<Rightarrow> endpoint \<Rightarrow> hash \<Rightarrow> TerminalOpsState option \<Rightarrow>
   'o sync_state \<Rightarrow> bool \<times> 'o sync_state" where
  "receiveRemoteState om st now sec sender stateHash' state s =
     (case state of
        Some state \<Rightarrow>
          (let computedHash = state_hash state
           in if computedHash \<noteq> stateHash' then (False, s)
              else
                (let (opsToFetch, badOps) =
                       foldl (checkTerminalOp om st s) ([], False) (terminalOps state);
                     s = (if badOps then s
                          else if length opsToFetch > 0 then
                            sendRequestObjsMessage now sec sender
                              (map (\<lambda>h. \<lparr> req_hash = h, dependencyChain = [] \<rparr>) opsToFetch) s
                          else s)
                 in (length opsToFetch > 0 \<and> \<not> badOps, s)))
      | None \<Rightarrow>
          (let s = (if Some stateHash' \<noteq> stateHash s then sendRequestStateMessage sender s else s)
           in (False, s)))"

subsection \<open>The table of incoming requests\<close>

text \<open>
  What changes \<open>incomingObjects\<close>: \<open>sendRequestObjsMessage\<close> (through
  \<open>expectIncomingObject\<close>), the periodic sweep, and \<open>receiveObjects\<close>, which deletes
  the entry of a root hash it has processed.
\<close>

datatype incoming_event =
    SendRequestObjs int secret endpoint "ObjectRequest list"
  | Sweep int
  | ObjectReceived hash

fun apply_incoming_event :: "incoming_event \<Rightarrow> 'o sync_state \<Rightarrow> 'o sync_state" where
  "apply_incoming_event (SendRequestObjs now sec destination reqs) s =
     sendRequestObjsMessage now sec destination reqs s"
| "apply_incoming_event (Sweep now) s = opShippingInterval now s"
| "apply_incoming_event (ObjectReceived h) s = s\<lparr>incomingObjects := AList.delete h (incomingObjects s)\<rparr>"

text \<open>The hashes a message asks for.\<close>

fun requested_hashes :: "'o sync_message \<Rightarrow> hash list" where
  "requested_hashes (RequestObjs t reqs sec) = map req_hash reqs"
| "requested_hashes m = []"


text \<open>A movement table with distinct keys and at most two endpoints for a hash.\<close>

definition movements_bounded :: "ObjectMovements \<Rightarrow> bool" where
  "movements_bounded m \<longleftrightarrow>
     distinct (map fst m) \<and>
     (\<forall>h d. map_of m h = Some d \<longrightarrow> distinct (map fst d) \<and> length d \<le> 2)"

subsection \<open>Example objects\<close>

text \<open>
  Objects that are their own literal, keyed by appending the secret to the hash: the
  objects of the examples below.
\<close>

definition literal_objects :: "Literal object_model" where
  "literal_objects =
     \<lparr> hash_of = lit_hash, keyed_hash = (\<lambda>obj sec. lit_hash obj @ sec), getClassName = lit_class,
       targetObject_hash = lit_target, toLiteral = (\<lambda>obj. obj), subobjectLiterals = (\<lambda>obj. []) \<rparr>"

definition example_op :: "hash \<Rightarrow> Dependency list \<Rightarrow> Literal" where
  "example_op h deps =
     \<lparr> lit_hash = h, lit_class = ''cls'', lit_target = Some ''obj'', dependencies = deps \<rparr>"

definition example_agent :: "Literal sync_state" where
  "example_agent = new_TerminalOpsSyncAgent ''obj'' [''cls''] default_sync_params"

subsection \<open>Sending requested objects\<close>

text \<open>
  Modelled from the spec: \<open>HashedObject\<close> (data/model/HashedObject.ts), and with it
  \<open>toContext\<close>, is not among the sources. Serialising an object into a shared context
  adds its literal and the literals of its subobjects, and appends its hash to the root
  hashes; dependencies of type reference are not added.
\<close>

definition toContext :: "'o object_model \<Rightarrow> 'o \<Rightarrow> 'o Context \<Rightarrow> 'o Context" where
  "toContext om obj ctx =
     (let own = toLiteral om obj
      in ctx\<lparr> rootHashes := rootHashes ctx @ [lit_hash own],
              literals := (foldl (\<lambda>m l. m(lit_hash l \<mapsto> l)) (literals ctx)
                             (subobjectLiterals om obj))(lit_hash own \<mapsto> own),
              objects := (objects ctx)(lit_hash own \<mapsto> obj) \<rparr>)"

text \<open>
  The constructor of \<open>Context\<close> (data/model/Context.ts), \<open>toLiteralContext\<close> and
  \<open>fromLiteralContext\<close>.
\<close>

definition new_Context :: "'o Context" where
  "new_Context = \<lparr> rootHashes = [], literals = Map.empty, objects = Map.empty \<rparr>"

definition toLiteralContext :: "'o Context \<Rightarrow> LiteralContext" where
  "toLiteralContext ctx = \<lparr> lc_rootHashes = rootHashes ctx, lc_literals = literals ctx \<rparr>"

definition fromLiteralContext :: "LiteralContext \<Rightarrow> 'o Context" where
  "fromLiteralContext lc =
     \<lparr> rootHashes = lc_rootHashes lc, literals = lc_literals lc, objects = Map.empty \<rparr>"

text \<open>
  The loop of \<open>tryToSendObjects\<close> that follows the dependency chain; it returns
  \<open>opHash\<close>, \<open>valid\<close> and \<open>missing\<close>, and a \<open>break\<close> ends it.
\<close>

fun followChain :: "'o store \<Rightarrow> hash list \<Rightarrow> hash \<Rightarrow> hash \<times> bool \<times> bool" where
  "followChain st [] opHash = (opHash, True, False)"
| "followChain st (depHash # chain) opHash =
     (case loadLiteral st depHash of
        None \<Rightarrow> (opHash, True, True)
      | Some depLiteral \<Rightarrow>
          (let matches = filter (\<lambda>dep. dep_hash dep = opHash) (dependencies depLiteral)
           in if length matches > 0 then followChain st chain depHash
              else (opHash, False, False)))"

text \<open>
  The loop over the dependencies of the literal just added. \<open>store.load\<close> of a reference
  that is not stored gives \<open>undefined\<close>, and \<open>ref.hash(secret)\<close> throws.
\<close>

fun proveReferences ::
  "'o object_model \<Rightarrow> 'o store \<Rightarrow> secret \<Rightarrow> Dependency list \<Rightarrow> hash set \<times> OwnershipProof list \<Rightarrow>
   error + hash set \<times> OwnershipProof list" where
  "proveReferences om st sec [] acc = Inr acc"
| "proveReferences om st sec (dep # deps) (provenReferences, ownershipProofs) =
     (if dep_kind dep = Reference then
        (if dep_hash dep \<notin> provenReferences then
           (case load st (dep_hash dep) of
              None \<Rightarrow> Inl (Error ''TypeError'')
            | Some ref \<Rightarrow>
                proveReferences om st sec deps
                  (insert (dep_hash dep) provenReferences,
                   ownershipProofs @
                     [\<lparr> proof_hash = dep_hash dep, ownershipProofHash = keyed_hash om ref sec \<rparr>]))
         else proveReferences om st sec deps (provenReferences, ownershipProofs))
      else proveReferences om st sec deps (provenReferences, ownershipProofs))"

record 'o send_acc =
  provenReferences :: "hash set"
  ownershipProofs :: "OwnershipProof list"
  sendLater :: "ObjectRequest list"
  send_context :: "'o Context"

text \<open>The body of the loop over the requested objects.\<close>

definition sendRequested ::
  "'o object_model \<Rightarrow> 'o store \<Rightarrow> secret \<Rightarrow> 'p sync_state \<Rightarrow> 'o send_acc \<Rightarrow> ObjectRequest \<Rightarrow>
   error + 'o send_acc" where
  "sendRequested om st sec s acc req =
     (let (opHash, valid, missing) = followChain st (dependencyChain req) (req_hash req);
          (valid, missing) =
            (if \<not> missing \<and> valid then
               (case load st opHash of
                  None \<Rightarrow> (valid, True)
                | Some op \<Rightarrow>
                    if \<not> shouldAcceptMutationOp om s op then (False, missing)
                    else (valid, missing))
             else (valid, missing))
      in if valid \<and> \<not> missing then
           (case load st (req_hash req) of
              None \<Rightarrow> Inr (acc\<lparr>sendLater := sendLater acc @ [req]\<rparr>)
            | Some obj \<Rightarrow>
                (let context = toContext om obj (send_context acc);
                     h = (if rootHashes context = [] then None
                          else Some (last (rootHashes context)))
                 in case (case h of None \<Rightarrow> None | Some h \<Rightarrow> literals context h) of
                      None \<Rightarrow> Inl (Error ''TypeError'')
                    | Some lit \<Rightarrow>
                        (case proveReferences om st sec (dependencies lit)
                                (provenReferences acc, ownershipProofs acc) of
                           Inl e \<Rightarrow> Inl e
                         | Inr (proven, proofs) \<Rightarrow>
                             Inr (acc\<lparr>provenReferences := proven, ownershipProofs := proofs,
                                      send_context := context\<rparr>))))
         else if valid \<and> missing then Inr (acc\<lparr>sendLater := sendLater acc @ [req]\<rparr>)
         else Inr acc)"

fun sendRequestedAll ::
  "'o object_model \<Rightarrow> 'o store \<Rightarrow> secret \<Rightarrow> 'p sync_state \<Rightarrow> ObjectRequest list \<Rightarrow> 'o send_acc \<Rightarrow>
   error + 'o send_acc" where
  "sendRequestedAll om st sec s [] acc = Inr acc"
| "sendRequestedAll om st sec s (req # reqs) acc =
     (case sendRequested om st sec s acc req of
        Inl e \<Rightarrow> Inl e
      | Inr acc \<Rightarrow> sendRequestedAll om st sec s reqs acc)"

text \<open>
  \<open>tryToSendObjects\<close>: the requests to send later and the agent after the call, or the
  exception that ended it.
\<close>

definition tryToSendObjects ::
  "'o object_model \<Rightarrow> 'o store \<Rightarrow> endpoint \<Rightarrow> ObjectRequest list \<Rightarrow> secret \<Rightarrow> 'o sync_state \<Rightarrow>
   error + ObjectRequest list \<times> 'o sync_state" where
  "tryToSendObjects om st destination requestedObjects sec s =
     (case sendRequestedAll om st sec s requestedObjects
             \<lparr> provenReferences = {}, ownershipProofs = [], sendLater = [],
               send_context = new_Context \<rparr> of
        Inl e \<Rightarrow> Inl e
      | Inr acc \<Rightarrow>
          Inr (sendLater acc,
               if length (rootHashes (send_context acc)) > 0
               then s\<lparr>sent := sent s @
                      [(destination,
                        SendObjs (objHash s) (toLiteralContext (send_context acc))
                          (ownershipProofs acc) sec)]\<rparr>
               else s))"

text \<open>
  The words of the claim: the chain walks, link by link, from the requested hash up
  through literals stored locally, each link's hash appearing in the dependencies of the
  next literal, to an op that is in the store and passes \<open>shouldAcceptMutationOp\<close>.
\<close>

fun chain_walks :: "'o store \<Rightarrow> hash \<Rightarrow> hash list \<Rightarrow> bool" where
  "chain_walks st h [] = True"
| "chain_walks st h (d # ds) =
     (case loadLiteral st d of
        None \<Rightarrow> False
      | Some lit \<Rightarrow> h \<in> dep_hash ` set (dependencies lit) \<and> chain_walks st d ds)"

definition proves_reachable :: "'o object_model \<Rightarrow> 'o store \<Rightarrow> 'p sync_state \<Rightarrow> ObjectRequest \<Rightarrow> bool" where
  "proves_reachable om st s req \<longleftrightarrow>
     chain_walks st (req_hash req) (dependencyChain req) \<and>
     (case load st (last (req_hash req # dependencyChain req)) of
        None \<Rightarrow> False
      | Some op \<Rightarrow> shouldAcceptMutationOp om s op)"

text \<open>The literals and root hashes of the send-objs messages in a list of sent messages.\<close>

fun sent_literals :: "'o sync_message \<Rightarrow> Literal set" where
  "sent_literals (SendObjs t lc proofs sec) = ran (lc_literals lc)"
| "sent_literals m = {}"

fun sent_roots :: "'o sync_message \<Rightarrow> hash list" where
  "sent_roots (SendObjs t lc proofs sec) = lc_rootHashes lc"
| "sent_roots m = []"

subsection \<open>Auxiliary notions for the proofs about tryToSendObjects\<close>

text \<open>The flags of a request when the object itself is looked up.\<close>

definition request_flags :: "'o object_model \<Rightarrow> 'o store \<Rightarrow> 'p sync_state \<Rightarrow> ObjectRequest \<Rightarrow> bool \<times> bool" where
  "request_flags om st s req =
     (let (opHash, valid, missing) = followChain st (dependencyChain req) (req_hash req)
      in if \<not> missing \<and> valid then
               (case load st opHash of
                  None \<Rightarrow> (valid, True)
                | Some op \<Rightarrow>
                    if \<not> shouldAcceptMutationOp om s op then (False, missing)
                    else (valid, missing))
             else (valid, missing))"

text \<open>A context whose root hashes and literals all come from requests that prove reachability.\<close>

definition from_reachable ::
  "'o object_model \<Rightarrow> 'o store \<Rightarrow> 'p sync_state \<Rightarrow> ObjectRequest set \<Rightarrow> 'o Context \<Rightarrow> bool" where
  "from_reachable om st s R ctx \<longleftrightarrow>
     (\<forall>h \<in> set (rootHashes ctx). \<exists>req \<in> R. \<exists>obj.
         proves_reachable om st s req \<and> load st (req_hash req) = Some obj \<and>
         h = lit_hash (toLiteral om obj)) \<and>
     (\<forall>l \<in> ran (literals ctx). \<exists>req \<in> R. \<exists>obj.
         proves_reachable om st s req \<and> load st (req_hash req) = Some obj \<and>
         l \<in> set (subobjectLiterals om obj @ [toLiteral om obj]))"

text \<open>Two accumulators that give the same reply: they differ in \<open>sendLater\<close> at most.\<close>

definition same_reply :: "'o send_acc \<Rightarrow> 'o send_acc \<Rightarrow> bool" where
  "same_reply a b \<longleftrightarrow>
     provenReferences a = provenReferences b \<and> ownershipProofs a = ownershipProofs b \<and>
     send_context a = send_context b"

text \<open>
  A store with an accepted op \<open>op1\<close> that refers to the identity \<open>id1\<close>, and an object
  \<open>x\<close> that no op refers to.
\<close>

definition example_store :: "Literal store" where
  "example_store =
     (let op1 = example_op ''op1'' [\<lparr>dep_hash = ''id1'', dep_path = ''author'', dep_kind = Reference\<rparr>];
          id1 = \<lparr>lit_hash = ''id1'', lit_class = ''identity'', lit_target = None, dependencies = []\<rparr>;
          x = \<lparr>lit_hash = ''x'', lit_class = ''private'', lit_target = None, dependencies = []\<rparr>
      in \<lparr> load = [''op1'' \<mapsto> op1, ''id1'' \<mapsto> id1, ''x'' \<mapsto> x],
           loadLiteral = [''op1'' \<mapsto> op1, ''id1'' \<mapsto> id1, ''x'' \<mapsto> x] \<rparr>)"

subsection \<open>Receiving objects\<close>

text \<open>The map built from \<open>omittedDeps\<close>; a later proof for a hash replaces an earlier one.\<close>

definition ownershipProofForHash :: "OwnershipProof list \<Rightarrow> (hash \<rightharpoonup> hash)" where
  "ownershipProofForHash omittedDeps =
     foldl (\<lambda>m omittedDep. m(proof_hash omittedDep \<mapsto> ownershipProofHash omittedDep))
       Map.empty omittedDeps"

text \<open>
  The body of the loop over \<open>context.findMissingDeps(hash).entries()\<close>, on the requests
  collected so far and the context.
\<close>

definition checkOmittedDep ::
  "'o object_model \<Rightarrow> 'o store \<Rightarrow> secret \<Rightarrow> (hash \<rightharpoonup> hash) \<Rightarrow>
   ObjectRequest list \<times> 'o Context \<Rightarrow> hash \<times> hash list \<Rightarrow> ObjectRequest list \<times> 'o Context" where
  "checkOmittedDep om st sec proofs acc entry =
     (let (toRequest, context) = acc;
          (depHash, depChain) = entry
      in case load st depHash of
           None \<Rightarrow> (toRequest @ [\<lparr> req_hash = depHash, dependencyChain = depChain \<rparr>], context)
         | Some dep \<Rightarrow>
             if Some (keyed_hash om dep sec) \<noteq> proofs depHash
             then (toRequest @ [\<lparr> req_hash = depHash, dependencyChain = depChain \<rparr>], context)
             else (toRequest, context\<lparr>objects := (objects context)(depHash \<mapsto> dep)\<rparr>))"

text \<open>
  \<open>Context.findMissingDeps(hash, chain, missing)\<close> and its loop over the dependencies
  of a literal. The map \<open>missing\<close> is filled in place and returned; a hash reached twice
  keeps the shorter chain. The recursion follows the literals of the context, and nothing
  in the method bounds it: \<open>depth\<close> is the number of nested calls the call stack still
  has room for, and \<open>None\<close> is the \<open>RangeError\<close> of a stack that is used up.
\<close>

fun findMissingDeps ::
  "nat \<Rightarrow> 'o Context \<Rightarrow> hash \<Rightarrow> hash list \<Rightarrow> (hash \<times> hash list) list \<Rightarrow>
   (hash \<times> hash list) list option"
and findMissingDeps_loop ::
  "nat \<Rightarrow> 'o Context \<Rightarrow> hash \<Rightarrow> hash list \<Rightarrow> Dependency list \<Rightarrow> (hash \<times> hash list) list \<Rightarrow>
   (hash \<times> hash list) list option" where
  "findMissingDeps depth ctx h chain missing =
     (if depth = 0 then None
      else
        (case literals ctx h of
           None \<Rightarrow>
             (case map_of missing h of
                None \<Rightarrow> Some (AList.update h chain missing)
              | Some prevChain \<Rightarrow>
                  if length chain < length prevChain then Some (AList.update h chain missing)
                  else Some missing)
         | Some literal \<Rightarrow>
             findMissingDeps_loop (depth - 1) ctx h chain (dependencies literal) missing))"
| "findMissingDeps_loop depth ctx h chain [] missing = Some missing"
| "findMissingDeps_loop depth ctx h chain (dep # deps) missing =
     (let newChain = h # chain
      in case findMissingDeps depth ctx (dep_hash dep) newChain missing of
           None \<Rightarrow> None
         | Some missing \<Rightarrow> findMissingDeps_loop depth ctx h chain deps missing)"

declare findMissingDeps.simps [simp del]

text \<open>\<open>Context.checkRootHashes\<close>: every root hash has a literal.\<close>

definition checkRootHashes :: "'o Context \<Rightarrow> bool" where
  "checkRootHashes ctx = list_all (\<lambda>h. literals ctx h \<noteq> None) (rootHashes ctx)"

text \<open>
  The body of the loop of \<open>receiveObjects\<close> over the root hashes. \<open>depth\<close> is the room
  on the call stack and \<open>rng h\<close> the secret drawn by the \<open>sendRequestObjsMessage\<close> call
  made for the root \<open>h\<close>. Inside the branch \<open>secret\<close> is the string \<open>incoming.secret\<close>.
  An exception in the \<open>try\<close> block is caught and logged, and the entry of the root is
  deleted all the same.
\<close>

definition receiveRoot ::
  "'o object_model \<Rightarrow> 'o store \<Rightarrow> int \<Rightarrow> (hash \<Rightarrow> secret) \<Rightarrow> nat \<Rightarrow> endpoint \<Rightarrow>
   (hash \<rightharpoonup> hash) \<Rightarrow> secret option \<Rightarrow> 'o Context \<times> 'o sync_state \<Rightarrow> hash \<Rightarrow>
   'o Context \<times> 'o sync_state" where
  "receiveRoot om st now rng depth src proofs secret' cs h =
     (let (context, s) = cs;
          incoming = (case map_of (incomingObjects s) h of
                        None \<Rightarrow> None
                      | Some m \<Rightarrow> map_of m src)
      in case (incoming, secret') of
           (Some inc, Some sec) \<Rightarrow>
             if mv_secret inc = sec then
               (let (context, s) =
                      (case findMissingDeps depth context h [] [] of
                         None \<Rightarrow> (context, s)
                       | Some missing \<Rightarrow>
                           (let (toRequest, context) =
                                  foldl (checkOmittedDep om st sec proofs) ([], context) missing;
                                s = (if length toRequest = 0
                                     then s\<lparr>started := started s @
                                            [ProcessReceivedObject h context]\<rparr>
                                     else
                                       (case literals context h of
                                          None \<Rightarrow> s
                                        | Some lit \<Rightarrow>
                                            (case shouldAcceptMutationOpLiteral s lit of
                                               Inl e \<Rightarrow> s
                                             | Inr accept \<Rightarrow>
                                                 sendRequestObjsMessage now (rng h) src toRequest
                                                   (if accept
                                                    then s\<lparr>started := started s @
                                                      [ProcessIncompleteOp src h context toRequest]\<rparr>
                                                    else s))))
                            in (context, s)))
                in (context, s\<lparr>incomingObjects := AList.delete h (incomingObjects s)\<rparr>))
             else (context, s)
         | _ \<Rightarrow> (context, s))"

text \<open>
  \<open>receiveObjects\<close>. \<open>Context.checkLiteralHashes\<close> compares the key of every literal
  with the literal's hash and with \<open>Hashing.forValue\<close> of its value; \<open>Hashing\<close> is not
  among the sources, and the check is a parameter.
\<close>

definition receiveObjects ::
  "'o object_model \<Rightarrow> 'o store \<Rightarrow> int \<Rightarrow> (hash \<Rightarrow> secret) \<Rightarrow> nat \<Rightarrow> ('o Context \<Rightarrow> bool) \<Rightarrow>
   endpoint \<Rightarrow> LiteralContext \<Rightarrow> OwnershipProof list \<Rightarrow> secret option \<Rightarrow> 'o sync_state \<Rightarrow>
   'o sync_state" where
  "receiveObjects om st now rng depth checkLiteralHashes src literalContext omittedDeps secret' s =
     (let context = fromLiteralContext literalContext;
          ownershipProofForHash = ownershipProofForHash omittedDeps
      in if checkRootHashes context \<and> checkLiteralHashes context
         then snd (foldl (receiveRoot om st now rng depth src ownershipProofForHash secret')
                     (context, s) (rootHashes context))
         else s)"

text \<open>
  The words of the claim: the receiver's store holds the dependency and the supplied
  proof equals the hash of the stored value keyed with the request secret.
\<close>

definition ownership_proved ::
  "'o object_model \<Rightarrow> 'o store \<Rightarrow> secret \<Rightarrow> (hash \<rightharpoonup> hash) \<Rightarrow> hash \<Rightarrow> bool" where
  "ownership_proved om st sec proofs depHash =
     (case load st depHash of
        None \<Rightarrow> False
      | Some dep \<Rightarrow> proofs depHash = Some (keyed_hash om dep sec))"

text \<open>
  A receiver that expects \<open>op1\<close> from \<open>peerA\<close> under the secret \<open>sec\<close> and holds the
  identity \<open>id1\<close>; a received context with \<open>op1\<close>, which refers to \<open>id1\<close> and \<open>id2\<close>;
  and the sender's ownership proofs for both.
\<close>

definition example_receiver :: "Literal sync_state" where
  "example_receiver =
     example_agent\<lparr>incomingObjects :=
       [(''op1'', [(''peerA'', \<lparr>mv_timeout = 90000, mv_secret = ''sec'', mv_dependencyChain = []\<rparr>)])]\<rparr>"

definition example_identity :: Literal where
  "example_identity =
     \<lparr>lit_hash = ''id1'', lit_class = ''identity'', lit_target = None, dependencies = []\<rparr>"

definition example_received :: "Literal Context" where
  "example_received =
     fromLiteralContext
       \<lparr>lc_rootHashes = [''op1''],
        lc_literals = [''op1'' \<mapsto> example_op ''op1''
           [\<lparr>dep_hash = ''id1'', dep_path = ''author'', dep_kind = Reference\<rparr>,
            \<lparr>dep_hash = ''id2'', dep_path = ''editor'', dep_kind = Reference\<rparr>]]\<rparr>"

definition example_proofs :: "OwnershipProof list" where
  "example_proofs =
     [\<lparr>proof_hash = ''id1'', ownershipProofHash = ''id1sec''\<rparr>,
      \<lparr>proof_hash = ''id2'', ownershipProofHash = ''id2sec''\<rparr>]"

text \<open>
  A receiver that asked \<open>peerA\<close> for the identity \<open>id2\<close>, a dependency of \<open>op1\<close>, under the
  secret \<open>sec2\<close>; the literal of \<open>id2\<close>, which refers to the key \<open>key2\<close>, with or
  without a \<open>targetObject\<close> field; and a store that holds nothing.
\<close>

definition example_key_holder :: "hash option \<Rightarrow> Literal" where
  "example_key_holder target =
     \<lparr>lit_hash = ''id2'', lit_class = ''identity'', lit_target = target,
      dependencies = [\<lparr>dep_hash = ''key2'', dep_path = ''publicKey'', dep_kind = Reference\<rparr>]\<rparr>"

definition example_dep_receiver :: "Literal sync_state" where
  "example_dep_receiver =
     example_agent\<lparr>incomingObjects :=
       [(''id2'', [(''peerA'', \<lparr>mv_timeout = 90000, mv_secret = ''sec2'',
                               mv_dependencyChain = [''op1'']\<rparr>)])]\<rparr>"

definition empty_store :: "Literal store" where
  "empty_store = \<lparr>load = Map.empty, loadLiteral = Map.empty\<rparr>"

text \<open>
  A chain that walks through the literals of a context: each hash is a dependency of the
  literal of the next. An entry of \<open>findMissingDeps\<close> for the root \<open>r\<close> has no literal
  in the context and a chain that walks from it up to \<open>r\<close>.
\<close>

fun context_path :: "'o Context \<Rightarrow> hash \<Rightarrow> hash list \<Rightarrow> bool" where
  "context_path ctx h [] = True"
| "context_path ctx h (p # ps) =
     (case literals ctx p of
        None \<Rightarrow> False
      | Some lit \<Rightarrow> h \<in> dep_hash ` set (dependencies lit) \<and> context_path ctx p ps)"

definition missing_entry :: "'o Context \<Rightarrow> hash \<Rightarrow> hash \<times> hash list \<Rightarrow> bool" where
  "missing_entry ctx r e \<longleftrightarrow>
     literals ctx (fst e) = None \<and> context_path ctx (fst e) (snd e) \<and>
     last (fst e # snd e) = r"

section \<open>Theorems\<close>

text \<open>
  C10. Constructing an UndoOp whose targetOp argument is itself an UndoOp always throws;
  for a targetOp that is not an UndoOp the constructor succeeds and the new op carries
  that targetOp, and the cascadeOf argument when one is given.
\<close>

theorem new_UndoOp_rejects_undo:
  "(is_UndoOp t \<longrightarrow> (\<exists>e. new_UndoOp tgt (Some t) c = Inl e)) \<and>
   (\<not> is_UndoOp t \<longrightarrow>
      (\<exists>u. new_UndoOp tgt (Some t) c = Inr u \<and> is_UndoOp u \<and>
           targetOp u = Some t \<and> cascadeOf u = c))"
  by (cases c) (simp_all add: new_UndoOp_def)

theorem new_UndoOp_rejects_undo_witness:
  "(\<exists>e. new_UndoOp (Some ''m'') (Some (UndoOp (Some ''m'') None None None)) None = Inl e) \<and>
   (\<exists>u. new_UndoOp (Some ''m'') (Some (ReversibleOp ''r''))
           (Some (UndoOp (Some ''m'') None None None)) = Inr u \<and> is_UndoOp u \<and>
        targetOp u = Some (ReversibleOp ''r'') \<and>
        cascadeOf u = Some (UndoOp (Some ''m'') None None None))"
  using new_UndoOp_rejects_undo [of "UndoOp (Some ''m'') None None None" "Some ''m''" None]
        new_UndoOp_rejects_undo [of "ReversibleOp ''r''" "Some ''m''"
                                    "Some (UndoOp (Some ''m'') None None None)"]
  by simp

subsection \<open>The previous-states cache\<close>


lemma indexOf_from_absent: "x \<notin> set xs \<Longrightarrow> indexOf_from i xs x = -1"
  by (induction xs arbitrary: i) auto

lemma indexOf_from_present:
  "x \<in> set xs \<Longrightarrow> \<exists>n. indexOf_from i xs x = i + int n \<and> n < length xs \<and>
       take n xs @ drop (Suc n) xs = remove1 x xs"
proof (induction xs arbitrary: i)
  case Nil
  then show ?case by simp
next
  case (Cons y ys)
  show ?case
  proof (cases "y = x")
    case True
    then show ?thesis by (intro exI[of _ 0]) simp
  next
    case False
    with Cons.prems have "x \<in> set ys" by simp
    from Cons.IH[OF this, of "i + 1"] obtain n where
      n: "indexOf_from (i + 1) ys x = i + 1 + int n" "n < length ys"
         "take n ys @ drop (Suc n) ys = remove1 x ys" by blast
    with False show ?thesis by (intro exI[of _ "Suc n"]) simp
  qed
qed

lemma indexOf_nonneg_iff: "indexOf xs x \<ge> 0 \<longleftrightarrow> x \<in> set xs"
proof (cases "x \<in> set xs")
  case True
  from indexOf_from_present[OF this, of 0] show ?thesis using True by (auto simp: indexOf_def)
next
  case False
  then show ?thesis by (simp add: indexOf_def indexOf_from_absent)
qed

lemma splice_indexOf: "x \<in> set xs \<Longrightarrow> splice (indexOf xs x) 1 xs = remove1 x xs"
proof -
  assume "x \<in> set xs"
  from indexOf_from_present[OF this, of 0] obtain n where
    n: "indexOf xs x = int n" "n < length xs" "take n xs @ drop (Suc n) xs = remove1 x xs"
    by (auto simp: indexOf_def)
  moreover have "nat (int n + 1) = Suc n" by simp
  ultimately show ?thesis by (simp add: splice_def Let_def min_def max_def)
qed

lemma splice_truncate:
  "0 \<le> m \<Longrightarrow> m < int (length xs) \<Longrightarrow> splice m (int (length xs) - m) xs = take (nat m) xs"
  by (simp add: splice_def Let_def min_def max_def)

lemma cachePreviousStateHash_cache:
  assumes "1 \<le> maxCachedPrevStates (params s)"
  shows "previousStatesCache (cachePreviousStateHash a h s) =
         (previousStatesCache s)(a \<mapsto> h # take (nat (maxCachedPrevStates (params s) - 1))
            (remove1 h (case previousStatesCache s a of None \<Rightarrow> [] | Some ps \<Rightarrow> ps)))"
proof -
  define xs where "xs = (case previousStatesCache s a of None \<Rightarrow> [] | Some ps \<Rightarrow> ps)"
  define ys where "ys = (if indexOf xs h \<ge> 0 then splice (indexOf xs h) 1 xs else xs)"
  have ys: "ys = remove1 h xs"
    unfolding ys_def using splice_indexOf[of h xs] indexOf_nonneg_iff[of xs h]
    by (auto simp: remove1_idem)
  define m where "m = maxCachedPrevStates (params s) - 1"
  have m: "0 \<le> m" using assms by (simp add: m_def)
  have "(if int (length ys) > m then splice m (int (length ys) - m) ys else ys) = take (nat m) ys"
    using splice_truncate[OF m, of ys] by auto
  moreover have "cachePreviousStateHash a h s =
      s\<lparr>previousStatesCache := (previousStatesCache s)(a \<mapsto>
          h # (if int (length ys) > m then splice m (int (length ys) - m) ys else ys))\<rparr>"
    unfolding cachePreviousStateHash_def Let_def xs_def[symmetric] ys_def[symmetric]
      m_def[symmetric] ..
  ultimately show ?thesis
    by (simp add: ys m_def xs_def)
qed


lemma cachePreviousStateHash_params [simp]:
  "params (cachePreviousStateHash a h s) = params s"
  by (simp add: cachePreviousStateHash_def Let_def)

lemma cachePreviousStateHash_invariant:
  assumes M: "1 \<le> maxCachedPrevStates (params s)"
    and inv: "\<And>b xs. previousStatesCache s b = Some xs \<Longrightarrow>
                int (length xs) \<le> maxCachedPrevStates (params s) \<and> distinct xs"
    and res: "previousStatesCache (cachePreviousStateHash a h s) b = Some xs"
  shows "int (length xs) \<le> maxCachedPrevStates (params s) \<and> distinct xs"
proof (cases "b = a")
  case False
  with res have "previousStatesCache s b = Some xs"
    by (simp add: cachePreviousStateHash_cache[OF M])
  then show ?thesis by (rule inv)
next
  case True
  define old where "old = (case previousStatesCache s a of None \<Rightarrow> [] | Some ps \<Rightarrow> ps)"
  have d: "distinct old"
    using inv[of a] by (auto simp: old_def split: option.splits)
  from res True have xs: "xs = h # take (nat (maxCachedPrevStates (params s) - 1)) (remove1 h old)"
    by (simp add: cachePreviousStateHash_cache[OF M] old_def)
  have "h \<notin> set (remove1 h old)" using d by simp
  then have "h \<notin> set (take (nat (maxCachedPrevStates (params s) - 1)) (remove1 h old))"
    by (meson in_set_takeD)
  moreover have "distinct (take (nat (maxCachedPrevStates (params s) - 1)) (remove1 h old))"
    using d by simp
  moreover have "int (length xs) \<le> maxCachedPrevStates (params s)"
    using M by (simp add: xs)
  ultimately show ?thesis by (simp add: xs)
qed

lemma cache_calls_invariant:
  assumes "1 \<le> maxCachedPrevStates (params s)"
    and "\<And>b xs. previousStatesCache s b = Some xs \<Longrightarrow>
                int (length xs) \<le> maxCachedPrevStates (params s) \<and> distinct xs"
  shows "params (cache_calls calls s) = params s \<and>
         (\<forall>b xs. previousStatesCache (cache_calls calls s) b = Some xs \<longrightarrow>
                int (length xs) \<le> maxCachedPrevStates (params s) \<and> distinct xs)"
  using assms
proof (induction calls arbitrary: s)
  case Nil
  then show ?case by (simp add: cache_calls_def)
next
  case (Cons c calls)
  obtain a h where c: "c = (a, h)" by (cases c)
  let ?s = "cachePreviousStateHash a h s"
  have 1: "1 \<le> maxCachedPrevStates (params ?s)" using Cons.prems(1) by simp
  have 2: "\<And>b xs. previousStatesCache ?s b = Some xs \<Longrightarrow>
                int (length xs) \<le> maxCachedPrevStates (params ?s) \<and> distinct xs"
    using cachePreviousStateHash_invariant[OF Cons.prems(1) Cons.prems(2)] by simp
  from Cons.IH[OF 1 2] show ?case by (simp add: cache_calls_def c)
qed

text \<open>
  C8. The previous-states cache is a bounded deque without duplicates. After any sequence
  of cachePreviousStateHash calls on a new agent whose maxCachedPrevStates is at least 1,
  one more call for a hash puts that hash at the front of the agent's cache; when the hash
  was cached already, the rest of the cache is the old cache without it (it moved, no
  second copy), and every cache holds at most maxCachedPrevStates hashes, none twice.
\<close>

theorem previousStatesCache_bounded_deduplicated:
  assumes "1 \<le> maxCachedPrevStates p"
    and "s = cache_calls calls (new_StateGossipAgent p)"
    and "s' = cachePreviousStateHash agentId h s"
  shows "(\<exists>ys. previousStatesCache s' agentId = Some (h # ys) \<and>
              (\<forall>xs. previousStatesCache s agentId = Some xs \<and> h \<in> set xs \<longrightarrow> ys = remove1 h xs)) \<and>
         (\<forall>a xs. previousStatesCache s' a = Some xs \<longrightarrow>
              int (length xs) \<le> maxCachedPrevStates p \<and> distinct xs)"
proof -
  have p0: "params (new_StateGossipAgent p :: 'a gossip_state) = p"
    by (simp add: new_StateGossipAgent_def)
  have inv0: "\<And>b xs. previousStatesCache (new_StateGossipAgent p :: 'a gossip_state) b = Some xs \<Longrightarrow>
                int (length xs) \<le> maxCachedPrevStates (params (new_StateGossipAgent p :: 'a gossip_state)) \<and> distinct xs"
    by (simp add: new_StateGossipAgent_def)
  from cache_calls_invariant[of "new_StateGossipAgent p :: 'a gossip_state" calls, OF _ inv0]
  have ps: "params s = p"
    and inv: "\<And>b xs. previousStatesCache s b = Some xs \<Longrightarrow>
                int (length xs) \<le> maxCachedPrevStates p \<and> distinct xs"
    using assms(1,2) p0 by auto
  have M: "1 \<le> maxCachedPrevStates (params s)" using assms(1) ps by simp
  have front: "\<exists>ys. previousStatesCache s' agentId = Some (h # ys) \<and>
              (\<forall>xs. previousStatesCache s agentId = Some xs \<and> h \<in> set xs \<longrightarrow> ys = remove1 h xs)"
  proof -
    define old where "old = (case previousStatesCache s agentId of None \<Rightarrow> [] | Some ps \<Rightarrow> ps)"
    define ys where "ys = take (nat (maxCachedPrevStates p - 1)) (remove1 h old)"
    have eq: "previousStatesCache s' agentId = Some (h # ys)"
      using cachePreviousStateHash_cache[OF M, of agentId h] assms(3) ps
      by (simp add: ys_def old_def)
    have "ys = remove1 h xs" if xs: "previousStatesCache s agentId = Some xs" "h \<in> set xs" for xs
    proof -
      have "int (length xs) \<le> maxCachedPrevStates p" using inv[OF xs(1)] by simp
      moreover have "length (remove1 h xs) = length xs - 1" using xs(2) by (simp add: length_remove1)
      moreover have "0 < length xs" using xs(2) by (cases xs) auto
      ultimately have "length (remove1 h xs) \<le> nat (maxCachedPrevStates p - 1)" by linarith
      then show ?thesis using xs(1) by (simp add: ys_def old_def)
    qed
    with eq show ?thesis by blast
  qed
  have "\<And>a xs. previousStatesCache s' a = Some xs \<Longrightarrow>
              int (length xs) \<le> maxCachedPrevStates p \<and> distinct xs"
    using cachePreviousStateHash_invariant[OF M, of agentId h] inv ps assms(3) by auto
  with front show ?thesis by blast
qed


theorem previousStatesCache_bounded_deduplicated_witness:
  "1 \<le> maxCachedPrevStates (default_gossip_params\<lparr>maxCachedPrevStates := 2\<rparr>) \<and>
   previousStatesCache
     (cachePreviousStateHash ''a'' ''h1''
        (cache_calls [(''a'', ''h1''), (''a'', ''h2''), (''a'', ''h3'')]
           (new_StateGossipAgent (default_gossip_params\<lparr>maxCachedPrevStates := 2\<rparr>)
              :: unit gossip_state))) ''a'' = Some [''h1'', ''h3''] \<and>
   int (length [''h1'', ''h3'']) \<le>
     maxCachedPrevStates (default_gossip_params\<lparr>maxCachedPrevStates := 2\<rparr>) \<and>
   distinct [''h1'', ''h3'']"
proof -
  have h: "1 \<le> maxCachedPrevStates (default_gossip_params\<lparr>maxCachedPrevStates := 2\<rparr>)"
    by simp
  have v: "previousStatesCache
     (cachePreviousStateHash ''a'' ''h1''
        (cache_calls [(''a'', ''h1''), (''a'', ''h2''), (''a'', ''h3'')]
           (new_StateGossipAgent (default_gossip_params\<lparr>maxCachedPrevStates := 2\<rparr>)
              :: unit gossip_state))) ''a'' = Some [''h1'', ''h3'']"
    by (simp add: cache_calls_def cachePreviousStateHash_def indexOf_def splice_def
          new_StateGossipAgent_def default_gossip_params_def)
  show ?thesis
    using previousStatesCache_bounded_deduplicated [where ?'a = unit
        and calls = "[(''a'', ''h1''), (''a'', ''h2''), (''a'', ''h3'')]"
        and agentId = "''a''" and h = "''h1''", OF h refl refl] h v
    by simp
qed

text \<open>
  With \<open>maxCachedPrevStates = 0\<close> the truncation is \<open>splice(-1, ...)\<close>, which drops
  one hash only, and the cache holds one hash: the bound of C8 needs a positive parameter.
\<close>

lemma cachePreviousStateHash_zero_bound:
  "previousStatesCache
     (cachePreviousStateHash ''a'' ''h1''
        (new_StateGossipAgent (default_gossip_params\<lparr>maxCachedPrevStates := 0\<rparr>)
           :: unit gossip_state)) ''a'' = Some [''h1'']"
  by (simp add: cachePreviousStateHash_def indexOf_def splice_def
        new_StateGossipAgent_def default_gossip_params_def)

subsection \<open>Retries of receiveRemoteState\<close>

lemma retry_loop_calls:
  "calls_made (snd (retry_loop p agent valueReady retries isNew k tr)) \<le> calls_made tr + 1"
proof (induction p agent valueReady retries isNew k tr rule: retry_loop.induct)
  case (1 p agent valueReady retries isNew k tr)
  show ?case
  proof (cases "valueReady = False \<and> retries < newStateErrorRetries p")
    case False
    then show ?thesis by auto
  next
    case True
    show ?thesis
    proof (cases "agent k")
      case (Throws e)
      with True show ?thesis by (simp add: calls_made_def)
    next
      case (Returns b)
      have "retry_loop p agent True retries b (Suc k)
               (tr @ [Wait (newStateErrorDelay p), CallReceiveRemoteState]) =
            (Inr (b, True), tr @ [Wait (newStateErrorDelay p), CallReceiveRemoteState])"
        by simp
      with True Returns show ?thesis by (simp add: calls_made_def)
    qed
  qed
qed

lemma notifyAgentOfStateArrival_at_most_two_calls:
  "calls_made (snd (notifyAgentOfStateArrival p agents agentId)) \<le> 2"
proof (cases "agents agentId")
  case None
  then show ?thesis by (simp add: notifyAgentOfStateArrival_def calls_made_def)
next
  case (Some stateAgent)
  show ?thesis
  proof (cases "stateAgent 0")
    case (Returns b)
    with Some show ?thesis by (simp add: notifyAgentOfStateArrival_def calls_made_def)
  next
    case (Throws e)
    have "calls_made (snd (retry_loop p stateAgent False 0 False 1 [CallReceiveRemoteState])) \<le> 2"
      using retry_loop_calls[of p stateAgent False 0 False 1 "[CallReceiveRemoteState]"]
      by (simp add: calls_made_def)
    with Some Throws show ?thesis
      by (auto simp: notifyAgentOfStateArrival_def split: prod.splits sum.splits)
  qed
qed

text \<open>
  C4. The claim: a throwing receiveRemoteState is retried up to newStateErrorRetries
  times (3 by default), newStateErrorDelay apart. The code: the counter of the loop is
  never advanced and the retry is not guarded, so a second failure ends the attempts. An
  agent whose first two calls throw and whose third call would return is called twice,
  after one pause, and the second exception leaves \<open>notifyAgentOfStateArrival\<close>.
\<close>

theorem notifyAgentOfStateArrival_gives_up_after_one_retry:
  "newStateErrorRetries default_gossip_params = 3 \<and>
   notifyAgentOfStateArrival default_gossip_params
     [''agent'' \<mapsto> (\<lambda>k. if k < 2 then Throws (Error ''not ready'') else Returns True)] ''agent''
   = (Inl (Error ''not ready''),
      [CallReceiveRemoteState, Wait 1500, CallReceiveRemoteState])"
  by (simp add: notifyAgentOfStateArrival_def default_gossip_params_def)

subsection \<open>Gossiping a local state update\<close>


lemma sendStateObject_fields [simp]:
  "localStateObjects (sendStateObject now ep a s) = localStateObjects s"
  "params (sendStateObject now ep a s) = params s"
  "localState (sendStateObject now ep a s) = localState s"
  by (simp_all add: sendStateObject_def split: option.splits)

lemma gossip_loop_outbox:
  assumes "localStateObjects s a = Some st"
  shows "outbox (foldl (\<lambda>s i. if (None::endpoint option) = None \<or> None \<noteq> Some (peers ! i)
                       then sendStateObject now (peers ! i) a s else s) s is) =
         outbox s @ map (\<lambda>i. (peers ! i, SendStateObject a st now)) is"
  using assms
proof (induction "is" arbitrary: s)
  case Nil
  then show ?case by simp
next
  case (Cons i "is")
  let ?s = "sendStateObject now (peers ! i) a s"
  have "localStateObjects ?s a = Some st" using Cons.prems by simp
  from Cons.IH[OF this] show ?case using Cons.prems by (simp add: sendStateObject_def)
qed

lemma map_nth_upt_take: "n \<le> length xs \<Longrightarrow> map (\<lambda>i. xs ! i) [0 ..< n] = take n xs"
  by (simp add: list_eq_iff_nth_eq)

lemma gossipNewState_outbox:
  assumes st: "localStateObjects s a = Some st"
    and len: "length (shuffle (getPeers pg)) = length (getPeers pg)"
  shows "outbox (gossipNewState now shuffle pg a None s) =
         outbox s @ map (\<lambda>ep. (ep, SendStateObject a st now))
           (take (nat (min (int (length (getPeers pg)))
                     (max (minGossipPeers (params s))
                        \<lceil>js_mul (of_int (maxPeers pg)) (peerGossipFraction (params s))\<rceil>)))
              (shuffle (getPeers pg)))"
proof -
  define n where "n = nat (min (int (length (getPeers pg)))
                     (max (minGossipPeers (params s))
                        \<lceil>js_mul (of_int (maxPeers pg)) (peerGossipFraction (params s))\<rceil>))"
  have n: "n \<le> length (shuffle (getPeers pg))" using len by (simp add: n_def)
  have "gossipNewState now shuffle pg a None s =
        foldl (\<lambda>s i. if (None::endpoint option) = None \<or> None \<noteq> Some (shuffle (getPeers pg) ! i)
                       then sendStateObject now (shuffle (getPeers pg) ! i) a s else s) s [0 ..< n]"
  proof -
    define c where "c = \<lceil>js_mul (of_int (maxPeers pg)) (peerGossipFraction (params s))\<rceil>"
    define m where "m = minGossipPeers (params s)"
    define L where "L = int (length (getPeers pg))"
    have "(if (if c < m then m else c) > L then L else (if c < m then m else c)) = min L (max m c)"
      by (simp add: min_def max_def)
    then show ?thesis
      unfolding gossipNewState_def Let_def n_def c_def[symmetric] m_def[symmetric] L_def[symmetric]
      by simp
  qed
  then have "outbox (gossipNewState now shuffle pg a None s) =
         outbox s @ map (\<lambda>i. (shuffle (getPeers pg) ! i, SendStateObject a st now)) [0 ..< n]"
    using gossip_loop_outbox[OF st] by simp
  also have "map (\<lambda>i. (shuffle (getPeers pg) ! i, SendStateObject a st now)) [0 ..< n] =
             map (\<lambda>ep. (ep, SendStateObject a st now)) (map (\<lambda>i. shuffle (getPeers pg) ! i) [0 ..< n])"
    by simp
  also have "map (\<lambda>i. shuffle (getPeers pg) ! i) [0 ..< n] = take n (shuffle (getPeers pg))"
    by (rule map_nth_upt_take[OF n])
  finally show ?thesis by (simp add: n_def)
qed

lemma cachePreviousStateHash_fields [simp]:
  "outbox (cachePreviousStateHash a h s) = outbox s"
  "localStateObjects (cachePreviousStateHash a h s) = localStateObjects s"
  "localState (cachePreviousStateHash a h s) = localState s"
  "trackedAgentIds (cachePreviousStateHash a h s) = trackedAgentIds s"
  by (simp_all add: cachePreviousStateHash_def Let_def)

lemma default_gossip_count: "\<lceil>js_mul 10 (to_double (2 / 10))\<rceil> = 2"
  by code_simp

text \<open>
  The product is the rounded one: the double for \<open>0.07\<close> is a little more than
  \<open>7/100\<close>, and \<open>100 * 0.07\<close> is a double above 7.
\<close>

lemma rounded_gossip_count:
  "\<lceil>js_mul 100 (to_double (7 / 100))\<rceil> = 8 \<and> \<lceil>(100 :: rat) * (7 / 100)\<rceil> = 7"
  by code_simp

text \<open>
  C5. On a local agent-state-update for a tracked agent, with a peer list without
  repetitions and a shuffle that permutes it, the agent sends the new state object to
  exactly min(peerCount, max(minGossipPeers, ceil(maxPeers * peerGossipFraction)))
  distinct peers of the list, and nothing else; the product is the product of JavaScript
  numbers, rounded to a double. The witness is the case of 10 peers, maxPeers = 10,
  peerGossipFraction = 0.2 and minGossipPeers = 4: exactly 4 send-state-object messages.
\<close>

theorem localAgentStateUpdate_gossip_budget:
  assumes "agentId \<in> trackedAgentIds s"
    and "distinct (getPeers pg)"
    and "mset (shuffle (getPeers pg)) = mset (getPeers pg)"
    and "s' = localAgentStateUpdate H now shuffle pg agentId state s"
  shows "\<exists>dests. outbox s' = outbox s @ map (\<lambda>ep. (ep, SendStateObject agentId state now)) dests \<and>
           distinct dests \<and> set dests \<subseteq> set (getPeers pg) \<and>
           length dests = nat (min (int (length (getPeers pg)))
                                 (max (minGossipPeers (params s))
                                    \<lceil>js_mul (of_int (maxPeers pg)) (peerGossipFraction (params s))\<rceil>))"
proof -
  let ?n = "nat (min (int (length (getPeers pg)))
                                 (max (minGossipPeers (params s))
                                    \<lceil>js_mul (of_int (maxPeers pg)) (peerGossipFraction (params s))\<rceil>))"
  let ?dests = "take ?n (shuffle (getPeers pg))"
  have len: "length (shuffle (getPeers pg)) = length (getPeers pg)"
    using assms(3) by (rule mset_eq_length)
  have dist: "distinct (shuffle (getPeers pg))"
    using assms(2,3) by (metis mset_eq_imp_distinct_iff)
  have sub: "set (shuffle (getPeers pg)) = set (getPeers pg)"
    using assms(3) by (rule mset_eq_setD)
  define s1 where "s1 = (case localState s agentId of
                   None \<Rightarrow> s
                 | Some cur \<Rightarrow> if H state \<noteq> cur then cachePreviousStateHash agentId cur s else s)"
  define s2 where "s2 = s1\<lparr>localState := (localState s1)(agentId \<mapsto> H state)\<rparr>"
  define s3 where "s3 = s2\<lparr>localStateObjects := (localStateObjects s2)(agentId \<mapsto> state)\<rparr>"
  have s': "s' = gossipNewState now shuffle pg agentId None s3"
    using assms(1,4) by (simp add: localAgentStateUpdate_def Let_def s1_def s2_def s3_def)
  have s3: "localStateObjects s3 agentId = Some state" "outbox s3 = outbox s" "params s3 = params s"
    by (simp_all add: s3_def s2_def s1_def split: option.splits)
  have "outbox s' = outbox s @ map (\<lambda>ep. (ep, SendStateObject agentId state now)) ?dests"
    using gossipNewState_outbox[where s = s3 and a = agentId and st = state and shuffle = shuffle
        and pg = pg and now = now, OF s3(1) len] s3(2,3) s' by simp
  moreover have "distinct ?dests" using dist by simp
  moreover have "set ?dests \<subseteq> set (getPeers pg)" using sub by (metis set_take_subset)
  moreover have "length ?dests = ?n" using len by simp
  ultimately show ?thesis by blast
qed


theorem localAgentStateUpdate_gossip_budget_witness:
  "''agent'' \<in> trackedAgentIds (trackAgentState ''agent'' (new_StateGossipAgent default_gossip_params :: string gossip_state)) \<and>
   distinct [''p0'', ''p1'', ''p2'', ''p3'', ''p4'', ''p5'', ''p6'', ''p7'', ''p8'', ''p9''] \<and>
   mset (rev [''p0'', ''p1'', ''p2'', ''p3'', ''p4'', ''p5'', ''p6'', ''p7'', ''p8'', ''p9'']) =
   mset [''p0'', ''p1'', ''p2'', ''p3'', ''p4'', ''p5'', ''p6'', ''p7'', ''p8'', ''p9''] \<and>
   length (outbox (localAgentStateUpdate (\<lambda>st. st) 7 rev
      \<lparr>getPeers = [''p0'', ''p1'', ''p2'', ''p3'', ''p4'', ''p5'', ''p6'', ''p7'', ''p8'', ''p9''],
       maxPeers = 10\<rparr> ''agent'' ''state1''
      (trackAgentState ''agent'' (new_StateGossipAgent default_gossip_params)))) = 4"
proof -
  let ?s = "trackAgentState ''agent'' (new_StateGossipAgent default_gossip_params :: string gossip_state)"
  let ?ps = "[''p0'', ''p1'', ''p2'', ''p3'', ''p4'', ''p5'', ''p6'', ''p7'', ''p8'', ''p9'']"
  let ?pg = "\<lparr>getPeers = ?ps, maxPeers = 10\<rparr>"
  have h1: "''agent'' \<in> trackedAgentIds ?s" by (simp add: trackAgentState_def)
  have h2: "distinct (getPeers ?pg)" by simp
  have h3: "mset (rev (getPeers ?pg)) = mset (getPeers ?pg)" by simp
  have p: "minGossipPeers (params ?s) = 4" "peerGossipFraction (params ?s) = to_double (2 / 10)"
          "outbox ?s = []"
    by (simp_all add: trackAgentState_def new_StateGossipAgent_def default_gossip_params_def)
  from localAgentStateUpdate_gossip_budget [where shuffle = rev and pg = ?pg and s = ?s
      and agentId = "''agent''" and H = "\<lambda>st. st" and now = 7 and state = "''state1''",
      OF h1 h2 h3 refl]
  have "length (outbox (localAgentStateUpdate (\<lambda>st. st) 7 rev ?pg ''agent'' ''state1'' ?s)) = 4"
    unfolding p using default_gossip_count by auto
  with h1 h2 h3 show ?thesis by simp
qed

subsection \<open>Receiving a state object\<close>

lemma setRemoteState_fields [simp]:
  "outbox (setRemoteState ep a h obj s) = outbox s"
  "localStateObjects (setRemoteState ep a h obj s) = localStateObjects s"
  "localState (setRemoteState ep a h obj s) = localState s"
  "previousStatesCache (setRemoteState ep a h obj s) = previousStatesCache s"
  "params (setRemoteState ep a h obj s) = params s"
  by (simp_all add: setRemoteState_def Let_def)

lemma stateHashIsInPreviousCache_setRemoteState [simp]:
  "stateHashIsInPreviousCache a h (setRemoteState ep a' h' obj s) = stateHashIsInPreviousCache a h s"
  by (simp add: stateHashIsInPreviousCache_def)

text \<open>
  C7. When a valid state object arrives and its hash is in the previous-states cache of
  the agent, or the agent's receiveRemoteState returns false, and the hash differs from
  the local state hash of that agent, the gossip agent sends its own current state object
  (when it has one) back to the sender, and only that. When the received hash equals the
  local one, nothing is sent.
\<close>

theorem receiveStateObject_self_heal:
  assumes "validate stateObj"
    and "s' = receiveStateObject H validate now agents sender agentId stateObj s"
  shows "((stateHashIsInPreviousCache agentId (H stateObj) s \<or>
           fst (notifyAgentOfStateArrival (params s) agents agentId) = Inr False) \<and>
          localState s agentId \<noteq> Some (H stateObj) \<and> localStateObjects s agentId = Some own
          \<longrightarrow> outbox s' = outbox s @ [(sender, SendStateObject agentId own now)]) \<and>
         (localState s agentId = Some (H stateObj) \<longrightarrow> outbox s' = outbox s)"
  using assms
  by (auto simp: receiveStateObject_def Let_def sendStateObject_def split: sum.splits)


theorem receiveStateObject_self_heal_witness:
  "outbox (receiveStateObject (\<lambda>st. st) (\<lambda>st. True) 7 Map.empty ''peer'' ''agent'' ''h1''
     ((new_StateGossipAgent default_gossip_params)
        \<lparr>localState := [''agent'' \<mapsto> ''h2''], localStateObjects := [''agent'' \<mapsto> ''h2''],
         previousStatesCache := [''agent'' \<mapsto> [''h1'']]\<rparr>))
     = [(''peer'', SendStateObject ''agent'' ''h2'' 7)] \<and>
   outbox (receiveStateObject (\<lambda>st. st) (\<lambda>st. True) 7 [''agent'' \<mapsto> (\<lambda>k. Returns False)]
     ''peer'' ''agent'' ''h0''
     ((new_StateGossipAgent default_gossip_params)
        \<lparr>localState := [''agent'' \<mapsto> ''h2''], localStateObjects := [''agent'' \<mapsto> ''h2''],
         previousStatesCache := [''agent'' \<mapsto> [''h1'']]\<rparr>))
     = [(''peer'', SendStateObject ''agent'' ''h2'' 7)] \<and>
   outbox (receiveStateObject (\<lambda>st. st) (\<lambda>st. True) 7 [''agent'' \<mapsto> (\<lambda>k. Returns False)]
     ''peer'' ''agent'' ''h2''
     ((new_StateGossipAgent default_gossip_params)
        \<lparr>localState := [''agent'' \<mapsto> ''h2''], localStateObjects := [''agent'' \<mapsto> ''h2''],
         previousStatesCache := [''agent'' \<mapsto> [''h1'']]\<rparr>))
     = []"
proof -
  let ?s = "(new_StateGossipAgent default_gossip_params)
        \<lparr>localState := [''agent'' \<mapsto> ''h2''], localStateObjects := [''agent'' \<mapsto> ''h2''],
         previousStatesCache := [''agent'' \<mapsto> [''h1'']]\<rparr> :: string gossip_state"
  have v: "(\<lambda>st::string. True) ''h1''" "(\<lambda>st::string. True) ''h0''" "(\<lambda>st::string. True) ''h2''"
    by simp_all
  have c: "stateHashIsInPreviousCache ''agent'' ''h1'' ?s"
    by (simp add: stateHashIsInPreviousCache_def indexOf_def)
  have n: "fst (notifyAgentOfStateArrival (params ?s) [''agent'' \<mapsto> (\<lambda>k. Returns False)] ''agent'')
           = Inr False"
    by (simp add: notifyAgentOfStateArrival_def)
  have l: "localState ?s ''agent'' \<noteq> Some ''h1''" "localState ?s ''agent'' \<noteq> Some ''h0''"
          "localState ?s ''agent'' = Some ''h2''" "localStateObjects ?s ''agent'' = Some ''h2''"
          "outbox ?s = []"
    by (simp_all add: new_StateGossipAgent_def)
  show ?thesis
    using receiveStateObject_self_heal [where validate = "\<lambda>st. True" and stateObj = "''h1''"
             and H = "\<lambda>st. st" and now = 7 and agents = Map.empty and sender = "''peer''"
             and agentId = "''agent''" and s = ?s and own = "''h2''", OF v(1) refl]
          receiveStateObject_self_heal [where validate = "\<lambda>st. True" and stateObj = "''h0''"
             and H = "\<lambda>st. st" and now = 7 and agents = "[''agent'' \<mapsto> (\<lambda>k. Returns False)]"
             and sender = "''peer''" and agentId = "''agent''" and s = ?s and own = "''h2''",
             OF v(2) refl]
          receiveStateObject_self_heal [where validate = "\<lambda>st. True" and stateObj = "''h2''"
             and H = "\<lambda>st. st" and now = 7 and agents = "[''agent'' \<mapsto> (\<lambda>k. Returns False)]"
             and sender = "''peer''" and agentId = "''agent''" and s = ?s and own = "''h2''",
             OF v(3) refl]
          c n l
    by simp
qed

subsection \<open>Pending incoming requests\<close>


lemma movements_bounded_empty: "movements_bounded []"
  by (simp add: movements_bounded_def)

lemma movements_bounded_update:
  "movements_bounded m \<Longrightarrow> distinct (map fst d) \<Longrightarrow> length d \<le> 2 \<Longrightarrow>
   movements_bounded (AList.update h d m)"
  by (auto simp: movements_bounded_def distinct_update update_conv')

lemma movements_bounded_delete:
  "movements_bounded m \<Longrightarrow> movements_bounded (AList.delete h m)"
  by (auto simp: movements_bounded_def distinct_delete delete_conv' split: if_splits)

lemma fold_delete_keeps:
  "distinct (map fst d) \<Longrightarrow>
   distinct (map fst (foldl (\<lambda>d k. AList.delete k d) d ks)) \<and>
   length (foldl (\<lambda>d k. AList.delete k d) d ks) \<le> length d \<and>
   set (foldl (\<lambda>d k. AList.delete k d) d ks) \<subseteq> set d"
proof (induction ks arbitrary: d)
  case Nil
  then show ?case by simp
next
  case (Cons k ks)
  have 1: "distinct (map fst (AList.delete k d))" using Cons.prems by (simp add: distinct_delete)
  have 2: "length (AList.delete k d) \<le> length d" by (simp add: AList.delete_eq)
  have 3: "set (AList.delete k d) \<subseteq> set d" by (auto simp: AList.delete_eq)
  from Cons.IH[OF 1] 2 3 show ?case by fastforce
qed

lemma sweepDestinations_keeps:
  "distinct (map fst d) \<Longrightarrow>
   distinct (map fst (sweepDestinations now d)) \<and> length (sweepDestinations now d) \<le> length d"
  using fold_delete_keeps[of d] by (simp add: sweepDestinations_def Let_def)

lemma movements_bounded_sweep:
  assumes "movements_bounded m"
  shows "movements_bounded (sweepMovements now m)"
proof -
  define m1 where "m1 = map (\<lambda>(h, destinations). (h, sweepDestinations now destinations)) m"
  define out where "out = map fst (filter (\<lambda>(h, destinations). length destinations = 0) m1)"
  have res: "sweepMovements now m = foldl (\<lambda>m h. AList.delete h m) m1 out"
    by (simp add: sweepMovements_def Let_def m1_def out_def)
  have keys: "map fst m1 = map fst m" by (auto simp: m1_def)
  then have d1: "distinct (map fst m1)" using assms by (simp add: movements_bounded_def)
  from fold_delete_keeps[OF d1, of out]
  have dr: "distinct (map fst (sweepMovements now m))"
    and sub: "set (sweepMovements now m) \<subseteq> set m1" by (simp_all add: res)
  have "distinct (map fst d') \<and> length d' \<le> 2"
    if "map_of (sweepMovements now m) h = Some d'" for h d'
  proof -
    from that have "(h, d') \<in> set m1" using sub by (meson map_of_SomeD subsetD)
    then obtain d where d: "(h, d) \<in> set m" "d' = sweepDestinations now d"
      by (auto simp: m1_def)
    then have "map_of m h = Some d" using assms by (simp add: movements_bounded_def)
    then have "distinct (map fst d)" "length d \<le> 2"
      using assms by (auto simp: movements_bounded_def)
    then show ?thesis using sweepDestinations_keeps[of d now] d(2) by auto
  qed
  with dr show ?thesis by (auto simp: movements_bounded_def)
qed

lemma sweepIncompleteOps_incoming [simp]:
  "incomingObjects (sweepIncompleteOps now s) = incomingObjects s"
proof -
  have a: "incomingObjects (foldl (\<lambda>s depHash.
             s\<lparr>opsForMissingObj := multimap_delete depHash h (opsForMissingObj s)\<rparr>) s ds)
           = incomingObjects s" for h ds and s :: "'a sync_state"
    by (induction ds arbitrary: s) auto
  have b: "incomingObjects (foldl (\<lambda>s (h, incompleteOp).
                       foldl (\<lambda>s depHash.
                                s\<lparr>opsForMissingObj := multimap_delete depHash h (opsForMissingObj s)\<rparr>)
                             s (map fst (missingObjects incompleteOp))) s ts) = incomingObjects s"
    for ts and s :: "'a sync_state"
    by (induction ts arbitrary: s) (auto simp: a)
  have c: "incomingObjects (foldl (\<lambda>s h. s\<lparr>incompleteOps := AList.delete h (incompleteOps s)\<rparr>) s hs)
           = incomingObjects s" for hs and s :: "'a sync_state"
    by (induction hs arbitrary: s) auto
  show ?thesis by (simp add: sweepIncompleteOps_def Let_def b c)
qed

lemma opShippingInterval_incoming:
  "incomingObjects (opShippingInterval now s) = sweepMovements now (incomingObjects s)"
  by (simp add: opShippingInterval_def Let_def)


lemma length_update_le: "length (AList.update k v al) \<le> Suc (length al)"
  by (induction al) auto

lemma requestOne_bounded:
  assumes "movements_bounded (incomingObjects (snd acc))"
  shows "movements_bounded (incomingObjects (snd (requestOne now sec dest acc req)))"
proof -
  obtain nr s where acc: "acc = (nr, s)" by (cases acc)
  let ?mv = "\<lparr> mv_timeout = now + receiveTimeout (syncParams s) * 1000, mv_secret = sec,
               mv_dependencyChain = dependencyChain req \<rparr>"
  show ?thesis
  proof (cases "map_of (incomingObjects s) (req_hash req)")
    case None
    have "movements_bounded (AList.update (req_hash req) [] (incomingObjects s))"
      using assms acc by (intro movements_bounded_update) simp_all
    then have "movements_bounded (AList.update (req_hash req) (AList.update dest ?mv [])
                 (AList.update (req_hash req) [] (incomingObjects s)))"
      by (rule movements_bounded_update) simp_all
    with None acc show ?thesis
      by (simp add: requestOne_def expectIncomingObject_def insertObjectMovement_def Let_def)
  next
    case (Some m)
    with assms acc have m: "distinct (map fst m)" "length m \<le> 2"
      by (auto simp: movements_bounded_def)
    show ?thesis
    proof (cases "map_of m dest = None \<and> length m < 2")
      case False
      with Some acc assms show ?thesis
        by (auto simp: requestOne_def Let_def)
    next
      case True
      have "length (AList.update dest ?mv m) \<le> 2"
        using length_update_le[of dest ?mv m] True by linarith
      then have "movements_bounded (AList.update (req_hash req) (AList.update dest ?mv m)
                   (incomingObjects s))"
        using assms acc m by (intro movements_bounded_update) (simp_all add: distinct_update)
      with Some True acc show ?thesis
        by (simp add: requestOne_def expectIncomingObject_def insertObjectMovement_def Let_def)
    qed
  qed
qed

lemma requestOne_fold_bounded:
  "movements_bounded (incomingObjects (snd acc)) \<Longrightarrow>
   movements_bounded (incomingObjects (snd (foldl (requestOne now sec dest) acc reqs)))"
  by (induction reqs arbitrary: acc) (simp_all add: requestOne_bounded)

lemma sendRequestObjsMessage_bounded:
  "movements_bounded (incomingObjects s) \<Longrightarrow>
   movements_bounded (incomingObjects (sendRequestObjsMessage now sec dest reqs s))"
  using requestOne_fold_bounded[of "([], s)" now sec dest reqs]
  by (cases "foldl (requestOne now sec dest) ([], s) reqs") (simp add: sendRequestObjsMessage_def)

lemma requestOne_sent: "sent (snd (requestOne now sec dest acc req)) = sent (snd acc)"
  by (cases acc)
     (auto simp: requestOne_def expectIncomingObject_def insertObjectMovement_def Let_def
        split: option.splits)

lemma requestOne_fold_sent:
  "sent (snd (foldl (requestOne now sec dest) acc reqs)) = sent (snd acc)"
  by (induction reqs arbitrary: acc) (simp_all add: requestOne_sent)

lemma requestOne_skips:
  assumes "map_of (incomingObjects (snd acc)) h = Some d"
    and "2 \<le> length d \<or> map_of d dest \<noteq> None"
    and "h \<notin> req_hash ` set (fst acc)"
  shows "map_of (incomingObjects (snd (requestOne now sec dest acc req))) h = Some d \<and>
         h \<notin> req_hash ` set (fst (requestOne now sec dest acc req))"
proof -
  obtain nr s where acc: "acc = (nr, s)" by (cases acc)
  show ?thesis
  proof (cases "req_hash req = h")
    case True
    with assms acc show ?thesis by (auto simp: requestOne_def Let_def)
  next
    case False
    with assms acc show ?thesis
      by (auto simp: requestOne_def expectIncomingObject_def insertObjectMovement_def Let_def
            update_conv' split: option.splits)
  qed
qed

lemma requestOne_fold_skips:
  "map_of (incomingObjects (snd acc)) h = Some d \<Longrightarrow>
   2 \<le> length d \<or> map_of d dest \<noteq> None \<Longrightarrow>
   h \<notin> req_hash ` set (fst acc) \<Longrightarrow>
   map_of (incomingObjects (snd (foldl (requestOne now sec dest) acc reqs))) h = Some d \<and>
   h \<notin> req_hash ` set (fst (foldl (requestOne now sec dest) acc reqs))"
proof (induction reqs arbitrary: acc)
  case Nil
  then show ?case by simp
next
  case (Cons r reqs)
  from requestOne_skips[OF Cons.prems, of now sec r]
  show ?case using Cons.IH[of "requestOne now sec dest acc r"] Cons.prems(2) by simp
qed

lemma sendRequestObjsMessage_skips:
  assumes "map_of (incomingObjects s) h = Some d"
    and "2 \<le> length d \<or> map_of d dest \<noteq> None"
  shows "map_of (incomingObjects (sendRequestObjsMessage now sec dest reqs s)) h = Some d \<and>
         (\<exists>msgs. sent (sendRequestObjsMessage now sec dest reqs s) = sent s @ msgs \<and>
                 h \<notin> set (concat (map (requested_hashes \<circ> snd) msgs)))"
proof -
  obtain nr s1 where f: "foldl (requestOne now sec dest) ([], s) reqs = (nr, s1)"
    by (cases "foldl (requestOne now sec dest) ([], s) reqs")
  have sent1: "sent s1 = sent s"
    using requestOne_fold_sent[of now sec dest "([], s)" reqs] f by simp
  from requestOne_fold_skips[of "([], s)" h d dest now sec reqs] assms f
  have 1: "map_of (incomingObjects s1) h = Some d" "h \<notin> req_hash ` set nr" by simp_all
  show ?thesis
  proof (cases "nr = []")
    case True
    with f 1 sent1 show ?thesis by (simp add: sendRequestObjsMessage_def)
  next
    case False
    with f 1 sent1 show ?thesis
      by (auto simp: sendRequestObjsMessage_def intro!: exI[of _ "[(dest, RequestObjs (objHash s1) nr sec)]"])
  qed
qed


lemma incoming_event_bounded:
  "movements_bounded (incomingObjects s) \<Longrightarrow>
   movements_bounded (incomingObjects (foldl (\<lambda>s e. apply_incoming_event e s) s events))"
proof (induction events arbitrary: s)
  case Nil
  then show ?case by simp
next
  case (Cons e events)
  have "movements_bounded (incomingObjects (apply_incoming_event e s))"
    using Cons.prems
    by (cases e)
       (simp_all add: sendRequestObjsMessage_bounded opShippingInterval_incoming
          movements_bounded_sweep movements_bounded_delete)
  from Cons.IH[OF this] show ?case by simp
qed

text \<open>
  C6. In every state the agent reaches from its construction by sending request-objs
  messages, sweeping and deleting the entries of received objects, each hash of
  incomingObjects has at most two endpoints, each once, and each hash has one entry. In
  such a state sendRequestObjsMessage leaves alone a hash that has two entries already or
  an entry for the destination: the entry stays as it is and the hash is in no message
  the call sends.
\<close>

theorem incomingObjects_at_most_two_per_hash:
  assumes "s = foldl (\<lambda>s e. apply_incoming_event e s) (new_TerminalOpsSyncAgent oh accepted p) events"
  shows "distinct (map fst (incomingObjects s)) \<and>
         (\<forall>h dests. map_of (incomingObjects s) h = Some dests \<longrightarrow>
              length dests \<le> 2 \<and> distinct (map fst dests)) \<and>
         (\<forall>h dests. map_of (incomingObjects s) h = Some dests \<and>
              (2 \<le> length dests \<or> map_of dests destination \<noteq> None) \<longrightarrow>
              map_of (incomingObjects (sendRequestObjsMessage now sec destination reqs s)) h
                = Some dests \<and>
              (\<exists>msgs. sent (sendRequestObjsMessage now sec destination reqs s) = sent s @ msgs \<and>
                 h \<notin> set (concat (map (requested_hashes \<circ> snd) msgs))))"
proof -
  have "movements_bounded (incomingObjects (new_TerminalOpsSyncAgent oh accepted p :: 'a sync_state))"
    by (simp add: new_TerminalOpsSyncAgent_def movements_bounded_empty)
  from incoming_event_bounded[OF this, of events]
  have "movements_bounded (incomingObjects s)" using assms by simp
  then have 1: "distinct (map fst (incomingObjects s))"
    and 2: "\<forall>h dests. map_of (incomingObjects s) h = Some dests \<longrightarrow>
              length dests \<le> 2 \<and> distinct (map fst dests)"
    unfolding movements_bounded_def by blast+
  have 3: "map_of (incomingObjects (sendRequestObjsMessage now sec destination reqs s)) h
                = Some dests \<and>
              (\<exists>msgs. sent (sendRequestObjsMessage now sec destination reqs s) = sent s @ msgs \<and>
                 h \<notin> set (concat (map (requested_hashes \<circ> snd) msgs)))"
    if "map_of (incomingObjects s) h = Some dests \<and>
              (2 \<le> length dests \<or> map_of dests destination \<noteq> None)" for h dests
    using sendRequestObjsMessage_skips[of s h dests destination now sec reqs] that by blast
  from 1 2 3 show ?thesis by blast
qed

theorem incomingObjects_at_most_two_per_hash_witness:
  "map (\<lambda>(h, dests). (h, map fst dests))
     (incomingObjects
        (sendRequestObjsMessage 0 ''s2'' ''B'' [\<lparr>req_hash = ''h1'', dependencyChain = []\<rparr>]
          (sendRequestObjsMessage 0 ''s1'' ''A'' [\<lparr>req_hash = ''h1'', dependencyChain = []\<rparr>]
            (new_TerminalOpsSyncAgent ''obj'' [''cls''] default_sync_params :: unit sync_state))))
   = [(''h1'', [''A'', ''B''])] \<and>
   map (\<lambda>(h, dests). (h, map fst dests))
     (incomingObjects
        (sendRequestObjsMessage 0 ''s3'' ''C'' [\<lparr>req_hash = ''h1'', dependencyChain = []\<rparr>]
          (sendRequestObjsMessage 0 ''s2'' ''B'' [\<lparr>req_hash = ''h1'', dependencyChain = []\<rparr>]
            (sendRequestObjsMessage 0 ''s1'' ''A'' [\<lparr>req_hash = ''h1'', dependencyChain = []\<rparr>]
              (new_TerminalOpsSyncAgent ''obj'' [''cls''] default_sync_params :: unit sync_state)))))
   = [(''h1'', [''A'', ''B''])]"
proof -
  define s where "s = sendRequestObjsMessage 0 ''s2'' ''B'' [\<lparr>req_hash = ''h1'', dependencyChain = []\<rparr>]
          (sendRequestObjsMessage 0 ''s1'' ''A'' [\<lparr>req_hash = ''h1'', dependencyChain = []\<rparr>]
            (new_TerminalOpsSyncAgent ''obj'' [''cls''] default_sync_params :: unit sync_state))"
  let ?d = "[(''A'', \<lparr>mv_timeout = 90000, mv_secret = ''s1'', mv_dependencyChain = []\<rparr>),
             (''B'', \<lparr>mv_timeout = 90000, mv_secret = ''s2'', mv_dependencyChain = []\<rparr>)]"
  have e: "s = foldl (\<lambda>s e. apply_incoming_event e s)
           (new_TerminalOpsSyncAgent ''obj'' [''cls''] default_sync_params)
           [SendRequestObjs 0 ''s1'' ''A'' [\<lparr>req_hash = ''h1'', dependencyChain = []\<rparr>],
            SendRequestObjs 0 ''s2'' ''B'' [\<lparr>req_hash = ''h1'', dependencyChain = []\<rparr>]]"
    by (simp add: s_def)
  have v: "incomingObjects s = [(''h1'', ?d)]"
    by (simp add: s_def new_TerminalOpsSyncAgent_def default_sync_params_def
          sendRequestObjsMessage_def requestOne_def expectIncomingObject_def
          insertObjectMovement_def Let_def)
  have m: "map_of (incomingObjects s) ''h1'' = Some ?d" unfolding v by simp
  have l: "2 \<le> length ?d \<or> map_of ?d ''C'' \<noteq> None" by simp
  from incomingObjects_at_most_two_per_hash [where destination = "''C''" and now = 0
      and sec = "''s3''" and reqs = "[\<lparr>req_hash = ''h1'', dependencyChain = []\<rparr>]", OF e] m l
  have k: "map_of (incomingObjects (sendRequestObjsMessage 0 ''s3'' ''C''
              [\<lparr>req_hash = ''h1'', dependencyChain = []\<rparr>] s)) ''h1'' = Some ?d"
    by blast
  have "incomingObjects (sendRequestObjsMessage 0 ''s3'' ''C''
              [\<lparr>req_hash = ''h1'', dependencyChain = []\<rparr>] s) = [(''h1'', ?d)]"
    by (simp add: v sendRequestObjsMessage_def requestOne_def Let_def split: prod.splits)
  with v k show ?thesis unfolding s_def by simp
qed

subsection \<open>The sweep of the incomplete ops\<close>

text \<open>
  C3. The claim: a sweep removes from incompleteOps exactly the entries whose deadline has
  passed, with their reverse-index entries, and leaves the others. The code tests
  \<open>incompleteOp.timeout > now\<close>, the opposite of the test \<open>now > params.timeout\<close> it
  applies to the movement tables. At time 5000 the sweep removes the op whose deadline is
  3600000 and its reverse-index entry, and keeps the op whose deadline was 1000.
\<close>

theorem opShippingInterval_evicts_unexpired:
  "map (\<lambda>(h, incompleteOp). (h, timeout incompleteOp))
     (incompleteOps (opShippingInterval 5000
        (example_agent
           \<lparr>incompleteOps :=
              [(''opA'', \<lparr>source = ''peer'',
                          op_context = \<lparr>rootHashes = [''opA''], literals = Map.empty, objects = Map.empty\<rparr>,
                          missingObjects = [(''dep'', \<lparr>req_hash = ''dep'', dependencyChain = [''opA'']\<rparr>)],
                          timeout = 3600000\<rparr>),
               (''opB'', \<lparr>source = ''peer'',
                          op_context = \<lparr>rootHashes = [''opB''], literals = Map.empty, objects = Map.empty\<rparr>,
                          missingObjects = [(''dep'', \<lparr>req_hash = ''dep'', dependencyChain = [''opB'']\<rparr>)],
                          timeout = 1000\<rparr>)],
            opsForMissingObj := [(''dep'', [''opA'', ''opB''])]\<rparr>)))
   = [(''opB'', 1000)] \<and>
   opsForMissingObj (opShippingInterval 5000
        (example_agent
           \<lparr>incompleteOps :=
              [(''opA'', \<lparr>source = ''peer'',
                          op_context = \<lparr>rootHashes = [''opA''], literals = Map.empty, objects = Map.empty\<rparr>,
                          missingObjects = [(''dep'', \<lparr>req_hash = ''dep'', dependencyChain = [''opA'']\<rparr>)],
                          timeout = 3600000\<rparr>),
               (''opB'', \<lparr>source = ''peer'',
                          op_context = \<lparr>rootHashes = [''opB''], literals = Map.empty, objects = Map.empty\<rparr>,
                          missingObjects = [(''dep'', \<lparr>req_hash = ''dep'', dependencyChain = [''opB'']\<rparr>)],
                          timeout = 1000\<rparr>)],
            opsForMissingObj := [(''dep'', [''opA'', ''opB''])]\<rparr>))
   = [(''dep'', [''opB''])]"
  by code_simp

subsection \<open>Receiving a remote state\<close>


lemma checkTerminalOp_fold:
  "foldl (checkTerminalOp om st s) (ops0, bad0) hs =
     (ops0 @ filter (\<lambda>h. map_of (incompleteOps s) h = None \<and> load st h = None) hs,
      bad0 \<or> (\<exists>h \<in> set hs. map_of (incompleteOps s) h = None \<and>
                 (\<exists>op. load st h = Some op \<and> \<not> shouldAcceptMutationOp om s op)))"
proof (induction hs arbitrary: ops0 bad0)
  case Nil
  then show ?case by simp
next
  case (Cons h hs)
  show ?case
  proof (cases "map_of (incompleteOps s) h = None")
    case False
    then have "checkTerminalOp om st s (ops0, bad0) h = (ops0, bad0)"
      by (simp add: checkTerminalOp_def)
    with False Cons.IH[of ops0 bad0] show ?thesis by auto
  next
    case True
    show ?thesis
    proof (cases "load st h")
      case None
      with True have "checkTerminalOp om st s (ops0, bad0) h = (ops0 @ [h], bad0)"
        by (simp add: checkTerminalOp_def)
      with True None Cons.IH[of "ops0 @ [h]" bad0] show ?thesis by auto
    next
      case (Some op)
      with True have "checkTerminalOp om st s (ops0, bad0) h =
           (ops0, bad0 \<or> \<not> shouldAcceptMutationOp om s op)"
        by (simp add: checkTerminalOp_def)
      with True Some Cons.IH[of ops0 "bad0 \<or> \<not> shouldAcceptMutationOp om s op"] show ?thesis
        by auto
    qed
  qed
qed

lemma receiveRemoteState_fst:
  "fst (receiveRemoteState om st now sec sender sh (Some state) s) \<longleftrightarrow>
     state_hash state = sh \<and>
     (\<exists>h \<in> set (terminalOps state). map_of (incompleteOps s) h = None \<and> load st h = None) \<and>
     \<not> (\<exists>h \<in> set (terminalOps state). map_of (incompleteOps s) h = None \<and>
                 (\<exists>op. load st h = Some op \<and> \<not> shouldAcceptMutationOp om s op))"
  by (auto simp: receiveRemoteState_def Let_def checkTerminalOp_fold filter_empty_conv)

lemma receiveRemoteState_undefined:
  "receiveRemoteState om st now sec sender sh None s =
     (False, if Some sh \<noteq> stateHash s
             then s\<lparr>sent := sent s @ [(sender, RequestState (objHash s))]\<rparr> else s)"
  by (simp add: receiveRemoteState_def sendRequestStateMessage_def)

text \<open>
  C9. For a state object whose hash is the advertised one, receiveRemoteState returns true
  only if some terminal op of the peer is neither in the store nor in incompleteOps, and
  every terminal op that was loaded (those not in incompleteOps) passes
  shouldAcceptMutationOp; when the stored ops of incompleteOps pass it too, as those the
  agent put there do, every stored terminal op passes it. It returns false when all
  terminal ops are in the store, and it returns false for an undefined state object, after
  a request-state message to the sender exactly when the advertised hash differs from the
  agent's own.
\<close>

theorem receiveRemoteState_isNew:
  "(state_hash state = sh \<and> fst (receiveRemoteState om st now sec sender sh (Some state) s) \<longrightarrow>
      (\<exists>h \<in> set (terminalOps state). load st h = None \<and> map_of (incompleteOps s) h = None) \<and>
      (\<forall>h \<in> set (terminalOps state). \<forall>op.
          map_of (incompleteOps s) h = None \<and> load st h = Some op \<longrightarrow>
          shouldAcceptMutationOp om s op) \<and>
      ((\<forall>h op. map_of (incompleteOps s) h \<noteq> None \<and> load st h = Some op \<longrightarrow>
           shouldAcceptMutationOp om s op) \<longrightarrow>
       (\<forall>h \<in> set (terminalOps state). \<forall>op.
          load st h = Some op \<longrightarrow> shouldAcceptMutationOp om s op))) \<and>
   ((\<forall>h \<in> set (terminalOps state). load st h \<noteq> None) \<longrightarrow>
      \<not> fst (receiveRemoteState om st now sec sender sh (Some state) s)) \<and>
   \<not> fst (receiveRemoteState om st now sec sender sh None s) \<and>
   sent (snd (receiveRemoteState om st now sec sender sh None s)) =
     sent s @ (if Some sh \<noteq> stateHash s then [(sender, RequestState (objHash s))] else [])"
proof -
  have a: "(\<exists>h \<in> set (terminalOps state). load st h = None \<and> map_of (incompleteOps s) h = None) \<and>
      (\<forall>h \<in> set (terminalOps state). \<forall>op.
          map_of (incompleteOps s) h = None \<and> load st h = Some op \<longrightarrow>
          shouldAcceptMutationOp om s op)"
    if "fst (receiveRemoteState om st now sec sender sh (Some state) s)"
    using that unfolding receiveRemoteState_fst by blast
  have b: "\<not> fst (receiveRemoteState om st now sec sender sh (Some state) s)"
    if "\<forall>h \<in> set (terminalOps state). load st h \<noteq> None"
    using that unfolding receiveRemoteState_fst by blast
  have c: "\<not> fst (receiveRemoteState om st now sec sender sh None s)"
    "sent (snd (receiveRemoteState om st now sec sender sh None s)) =
     sent s @ (if Some sh \<noteq> stateHash s then [(sender, RequestState (objHash s))] else [])"
    by (simp_all add: receiveRemoteState_undefined)
  from a b c show ?thesis by blast
qed


theorem receiveRemoteState_isNew_witness:
  "fst (receiveRemoteState literal_objects
          \<lparr>load = [''op1'' \<mapsto> example_op ''op1'' []], loadLiteral = [''op1'' \<mapsto> example_op ''op1'' []]\<rparr>
          0 ''sec'' ''peer'' ''sA'' (Some \<lparr>state_hash = ''sA'', terminalOps = [''op1'', ''op2'']\<rparr>)
          example_agent) \<and>
   (\<exists>h \<in> set (terminalOps \<lparr>state_hash = ''sA'', terminalOps = [''op1'', ''op2'']\<rparr>).
        load \<lparr>load = [''op1'' \<mapsto> example_op ''op1'' []],
              loadLiteral = [''op1'' \<mapsto> example_op ''op1'' []]\<rparr> h = None \<and>
        map_of (incompleteOps example_agent) h = None) \<and>
   \<not> fst (receiveRemoteState literal_objects
          \<lparr>load = [''op1'' \<mapsto> example_op ''op1'' []], loadLiteral = [''op1'' \<mapsto> example_op ''op1'' []]\<rparr>
          0 ''sec'' ''peer'' ''sB'' (Some \<lparr>state_hash = ''sB'', terminalOps = [''op1'']\<rparr>)
          example_agent) \<and>
   sent (snd (receiveRemoteState literal_objects
          \<lparr>load = [''op1'' \<mapsto> example_op ''op1'' []], loadLiteral = [''op1'' \<mapsto> example_op ''op1'' []]\<rparr>
          0 ''sec'' ''peer'' ''sB'' None example_agent)) = [(''peer'', RequestState ''obj'')]"
proof -
  let ?st = "\<lparr>load = [''op1'' \<mapsto> example_op ''op1'' []],
              loadLiteral = [''op1'' \<mapsto> example_op ''op1'' []]\<rparr>"
  let ?A = "\<lparr>state_hash = ''sA'', terminalOps = [''op1'', ''op2'']\<rparr>"
  let ?B = "\<lparr>state_hash = ''sB'', terminalOps = [''op1'']\<rparr>"
  note A = receiveRemoteState_isNew [where om = literal_objects and st = ?st and now = 0
            and sec = "''sec''" and sender = "''peer''" and sh = "''sA''" and state = ?A
            and s = example_agent]
  note B = receiveRemoteState_isNew [where om = literal_objects and st = ?st and now = 0
            and sec = "''sec''" and sender = "''peer''" and sh = "''sB''" and state = ?B
            and s = example_agent]
  have s: "shouldAcceptMutationOp literal_objects example_agent (example_op ''op1'' [])"
    by (simp add: example_agent_def new_TerminalOpsSyncAgent_def
          shouldAcceptMutationOp_def literal_objects_def example_op_def indexOf_def)
  have i: "incompleteOps example_agent = []"
    by (simp add: example_agent_def new_TerminalOpsSyncAgent_def)
  have t: "fst (receiveRemoteState literal_objects ?st 0 ''sec'' ''peer'' ''sA'' (Some ?A) example_agent)"
    unfolding receiveRemoteState_fst i using s by simp
  have h1: "state_hash ?A = ''sA''" by simp
  have h2: "\<forall>h \<in> set (terminalOps ?B). load ?st h \<noteq> None" by simp
  have e: "sent example_agent = []" "stateHash example_agent = None" "objHash example_agent = ''obj''"
    by (simp_all add: example_agent_def new_TerminalOpsSyncAgent_def)
  from A t h1 have 1: "\<exists>h \<in> set (terminalOps ?A). load ?st h = None \<and>
        map_of (incompleteOps example_agent) h = None" by blast
  from B h2 have 2: "\<not> fst (receiveRemoteState literal_objects ?st 0 ''sec'' ''peer'' ''sB''
        (Some ?B) example_agent)" by blast
  from B have "sent (snd (receiveRemoteState literal_objects ?st 0 ''sec'' ''peer'' ''sB'' None
        example_agent)) = sent example_agent @
          (if Some ''sB'' \<noteq> stateHash example_agent
           then [(''peer'', RequestState (objHash example_agent))] else [])" by blast
  then have 3: "sent (snd (receiveRemoteState literal_objects ?st 0 ''sec'' ''peer'' ''sB'' None
        example_agent)) = [(''peer'', RequestState ''obj'')]"
    unfolding e by simp
  from t 1 2 3 show ?thesis by blast
qed

subsection \<open>Sending requested objects\<close>


lemma followChain_walks:
  "followChain st chain h = (oh, valid, missing) \<Longrightarrow>
   (valid \<and> \<not> missing \<longleftrightarrow> chain_walks st h chain) \<and>
   (valid \<and> \<not> missing \<longrightarrow> oh = last (h # chain))"
proof (induction chain arbitrary: h)
  case Nil
  then show ?case by auto
next
  case (Cons d ds)
  show ?case
  proof (cases "loadLiteral st d")
    case None
    with Cons.prems show ?thesis by auto
  next
    case (Some lit)
    have m: "length (filter (\<lambda>dep. dep_hash dep = h) (dependencies lit)) > 0 \<longleftrightarrow>
             h \<in> dep_hash ` set (dependencies lit)"
      by (auto simp: filter_empty_conv)
    show ?thesis
    proof (cases "h \<in> dep_hash ` set (dependencies lit)")
      case True
      with Some m Cons.prems have "followChain st ds d = (oh, valid, missing)" by simp
      from Cons.IH[OF this] Some True show ?thesis by simp
    next
      case False
      with Some m Cons.prems show ?thesis by auto
    qed
  qed
qed

lemma request_flags_reachable:
  "request_flags om st s req = (valid, missing) \<Longrightarrow>
   (valid \<and> \<not> missing \<longleftrightarrow> proves_reachable om st s req)"
proof -
  assume a: "request_flags om st s req = (valid, missing)"
  obtain oh v m where f: "followChain st (dependencyChain req) (req_hash req) = (oh, v, m)"
    by (cases "followChain st (dependencyChain req) (req_hash req)")
  note w = followChain_walks[OF f]
  show ?thesis
  proof (cases "v \<and> \<not> m")
    case False
    with a f w show ?thesis by (auto simp: request_flags_def proves_reachable_def)
  next
    case True
    with w have oh: "oh = last (req_hash req # dependencyChain req)"
      and cw: "chain_walks st (req_hash req) (dependencyChain req)" by auto
    from a f True oh cw show ?thesis
      by (auto simp: request_flags_def proves_reachable_def split: option.splits if_splits)
  qed
qed

lemma sendRequested_flags:
  "sendRequested om st sec s acc req =
     (let (valid, missing) = request_flags om st s req
      in if valid \<and> \<not> missing then
           (case load st (req_hash req) of
              None \<Rightarrow> Inr (acc\<lparr>sendLater := sendLater acc @ [req]\<rparr>)
            | Some obj \<Rightarrow>
                (let context = toContext om obj (send_context acc);
                     h = (if rootHashes context = [] then None
                          else Some (last (rootHashes context)))
                 in case (case h of None \<Rightarrow> None | Some h \<Rightarrow> literals context h) of
                      None \<Rightarrow> Inl (Error ''TypeError'')
                    | Some lit \<Rightarrow>
                        (case proveReferences om st sec (dependencies lit)
                                (provenReferences acc, ownershipProofs acc) of
                           Inl e \<Rightarrow> Inl e
                         | Inr (proven, proofs) \<Rightarrow>
                             Inr (acc\<lparr>provenReferences := proven, ownershipProofs := proofs,
                                      send_context := context\<rparr>))))
         else if valid \<and> missing then Inr (acc\<lparr>sendLater := sendLater acc @ [req]\<rparr>)
         else Inr acc)"
  unfolding sendRequested_def request_flags_def Let_def
  by (simp split: prod.splits)

lemma sendRequested_unreachable:
  assumes "\<not> proves_reachable om st s req"
  shows "\<exists>later. sendRequested om st sec s acc req = Inr (acc\<lparr>sendLater := later\<rparr>)"
proof -
  obtain v m where f: "request_flags om st s req = (v, m)" by (cases "request_flags om st s req")
  from request_flags_reachable[OF f] assms have "\<not> (v \<and> \<not> m)" by simp
  then show ?thesis
    unfolding sendRequested_flags f
    by (cases "v \<and> m") (auto intro: exI[of _ "sendLater acc"])
qed

lemma sendRequested_reachable:
  assumes "sendRequested om st sec s acc req = Inr acc'"
    and "send_context acc' \<noteq> send_context acc"
  shows "proves_reachable om st s req \<and>
         (\<exists>obj. load st (req_hash req) = Some obj \<and>
                send_context acc' = toContext om obj (send_context acc))"
proof -
  have pr: "proves_reachable om st s req"
  proof (rule ccontr)
    assume "\<not> proves_reachable om st s req"
    from sendRequested_unreachable[OF this, of sec acc] assms show False by auto
  qed
  obtain v m where f: "request_flags om st s req = (v, m)" by (cases "request_flags om st s req")
  from request_flags_reachable[OF f] pr have vm: "v \<and> \<not> m" by simp
  from assms vm show ?thesis
    unfolding sendRequested_flags f using pr
    by (auto simp: Let_def split: option.splits sum.splits prod.splits if_splits)
qed


lemma foldl_literals_lookup:
  "(foldl (\<lambda>m l. m(lit_hash l \<mapsto> l)) m ls) h = Some l \<Longrightarrow> m h = Some l \<or> l \<in> set ls"
proof (induction ls arbitrary: m)
  case Nil
  then show ?case by simp
next
  case (Cons a ls)
  from Cons.prems have "foldl (\<lambda>m l. m(lit_hash l \<mapsto> l)) (m(lit_hash a \<mapsto> a)) ls h = Some l"
    by (simp only: foldl_Cons)
  from Cons.IH[OF this] have "(m(lit_hash a \<mapsto> a)) h = Some l \<or> l \<in> set ls" .
  then show ?case by (cases "h = lit_hash a") auto
qed

lemma toContext_rootHashes:
  "rootHashes (toContext om obj ctx) = rootHashes ctx @ [lit_hash (toLiteral om obj)]"
  by (simp add: toContext_def Let_def)

lemma toContext_literals:
  assumes "l \<in> ran (literals (toContext om obj ctx))"
  shows "l \<in> ran (literals ctx) \<or> l \<in> set (subobjectLiterals om obj @ [toLiteral om obj])"
proof -
  from assms obtain h where h: "literals (toContext om obj ctx) h = Some l"
    by (auto simp: ran_def)
  show ?thesis
  proof (cases "h = lit_hash (toLiteral om obj)")
    case True
    with h show ?thesis by (simp add: toContext_def Let_def)
  next
    case False
    with h have "(foldl (\<lambda>m l. m(lit_hash l \<mapsto> l)) (literals ctx) (subobjectLiterals om obj)) h
                 = Some l"
      by (simp add: toContext_def Let_def)
    from foldl_literals_lookup[OF this] show ?thesis by (auto simp: ran_def)
  qed
qed

lemma sendRequested_from_reachable:
  assumes inv: "from_reachable om st s R (send_context acc)"
    and req: "req \<in> R"
    and step: "sendRequested om st sec s acc req = Inr acc'"
  shows "from_reachable om st s R (send_context acc')"
proof (cases "send_context acc' = send_context acc")
  case True
  with inv show ?thesis by simp
next
  case False
  from sendRequested_reachable[OF step False] obtain obj where
    pr: "proves_reachable om st s req" and obj: "load st (req_hash req) = Some obj"
    and ctx: "send_context acc' = toContext om obj (send_context acc)" by blast
  have roots: "\<exists>req \<in> R. \<exists>obj.
         proves_reachable om st s req \<and> load st (req_hash req) = Some obj \<and>
         h = lit_hash (toLiteral om obj)" if "h \<in> set (rootHashes (send_context acc'))" for h
    using that inv req pr obj unfolding ctx toContext_rootHashes from_reachable_def by auto
  have lits: "\<exists>req \<in> R. \<exists>obj.
         proves_reachable om st s req \<and> load st (req_hash req) = Some obj \<and>
         l \<in> set (subobjectLiterals om obj @ [toLiteral om obj])"
    if "l \<in> ran (literals (send_context acc'))" for l
  proof -
    from that toContext_literals[of l om obj "send_context acc"]
    have "l \<in> ran (literals (send_context acc)) \<or>
          l \<in> set (subobjectLiterals om obj @ [toLiteral om obj])" unfolding ctx by blast
    then show ?thesis
    proof
      assume "l \<in> ran (literals (send_context acc))"
      with inv show ?thesis unfolding from_reachable_def by blast
    next
      assume "l \<in> set (subobjectLiterals om obj @ [toLiteral om obj])"
      with req pr obj show ?thesis by blast
    qed
  qed
  from roots lits show ?thesis unfolding from_reachable_def by blast
qed

lemma sendRequestedAll_from_reachable:
  "from_reachable om st s R (send_context acc) \<Longrightarrow> set reqs \<subseteq> R \<Longrightarrow>
   sendRequestedAll om st sec s reqs acc = Inr acc' \<Longrightarrow>
   from_reachable om st s R (send_context acc')"
proof (induction reqs arbitrary: acc)
  case Nil
  then show ?case by simp
next
  case (Cons req reqs)
  from Cons.prems(3) obtain acc1 where
    1: "sendRequested om st sec s acc req = Inr acc1"
    and 2: "sendRequestedAll om st sec s reqs acc1 = Inr acc'"
    by (auto split: sum.splits)
  have "from_reachable om st s R (send_context acc1)"
    using sendRequested_from_reachable[OF Cons.prems(1) _ 1] Cons.prems(2) by simp
  from Cons.IH[OF this _ 2] Cons.prems(2) show ?case by simp
qed

lemma sendRequested_same_reply:
  "same_reply a b \<Longrightarrow>
   rel_sum (=) same_reply (sendRequested om st sec s a req) (sendRequested om st sec s b req)"
  unfolding sendRequested_flags same_reply_def
  by (auto simp: Let_def split: prod.splits option.splits sum.splits)

lemma sendRequestedAll_same_reply:
  "same_reply a b \<Longrightarrow>
   rel_sum (=) same_reply (sendRequestedAll om st sec s reqs a) (sendRequestedAll om st sec s reqs b)"
proof (induction reqs arbitrary: a b)
  case Nil
  then show ?case by simp
next
  case (Cons req reqs)
  from sendRequested_same_reply[OF Cons.prems, of om st sec s req]
  show ?case using Cons.IH by (auto split: sum.splits elim!: rel_sum.cases)
qed

lemma sendRequestedAll_filter:
  "rel_sum (=) same_reply
     (sendRequestedAll om st sec s reqs acc)
     (sendRequestedAll om st sec s (filter (proves_reachable om st s) reqs) acc)"
proof (induction reqs arbitrary: acc)
  case Nil
  then show ?case by (simp add: same_reply_def)
next
  case (Cons req reqs)
  show ?case
  proof (cases "proves_reachable om st s req")
    case True
    then show ?thesis using Cons.IH by (auto split: sum.splits)
  next
    case False
    from sendRequested_unreachable[OF False, of sec acc] obtain later where
      1: "sendRequested om st sec s acc req = Inr (acc\<lparr>sendLater := later\<rparr>)" by blast
    have "same_reply (acc\<lparr>sendLater := later\<rparr>) acc" by (simp add: same_reply_def)
    from sendRequestedAll_same_reply[OF this, of om st sec s reqs] Cons.IH[of acc]
    have "rel_sum (=) same_reply
           (sendRequestedAll om st sec s reqs (acc\<lparr>sendLater := later\<rparr>))
           (sendRequestedAll om st sec s (filter (proves_reachable om st s) reqs) acc)"
      by (auto simp: same_reply_def elim!: rel_sum.cases)
    with False 1 show ?thesis by simp
  qed
qed


text \<open>
  C1. When tryToSendObjects returns, it has sent at most one send-objs message. Every root
  hash of that message is the hash of the stored object of a request whose dependencyChain
  walks link by link through stored literals from the requested hash to a stored op that
  passes shouldAcceptMutationOp, and every literal of the message is the literal of such
  an object or of one of its subobjects. The requests that fail this contribute nothing:
  without them the call leaves the agent, and so the message, the same.
\<close>

theorem tryToSendObjects_only_reachable:
  assumes "tryToSendObjects om st destination reqs sec s = Inr (later, s')"
  shows "(\<exists>msgs. sent s' = sent s @ msgs \<and>
           (\<forall>m \<in> set msgs.
              (\<forall>h \<in> set (sent_roots (snd m)). \<exists>req \<in> set reqs. \<exists>obj.
                  proves_reachable om st s req \<and> load st (req_hash req) = Some obj \<and>
                  h = lit_hash (toLiteral om obj)) \<and>
              (\<forall>l \<in> sent_literals (snd m). \<exists>req \<in> set reqs. \<exists>obj.
                  proves_reachable om st s req \<and> load st (req_hash req) = Some obj \<and>
                  l \<in> set (subobjectLiterals om obj @ [toLiteral om obj])))) \<and>
         (\<exists>later'. tryToSendObjects om st destination
                      (filter (proves_reachable om st s) reqs) sec s = Inr (later', s'))"
proof -
  let ?init = "\<lparr> provenReferences = {}, ownershipProofs = [], sendLater = [],
                 send_context = new_Context \<rparr> :: 'a send_acc"
  let ?reply = "\<lambda>acc :: 'a send_acc.
      if length (rootHashes (send_context acc)) > 0
      then s\<lparr>sent := sent s @
             [(destination, SendObjs (objHash s) (toLiteralContext (send_context acc))
                              (ownershipProofs acc) sec)]\<rparr>
      else s"
  from assms obtain acc where
    acc: "sendRequestedAll om st sec s reqs ?init = Inr acc"
    and s': "s' = ?reply acc"
    by (auto simp: tryToSendObjects_def split: sum.splits)
  have "from_reachable om st s (set reqs) (send_context ?init)"
    by (simp add: from_reachable_def new_Context_def)
  from sendRequestedAll_from_reachable[OF this _ acc]
  have inv: "from_reachable om st s (set reqs) (send_context acc)" by simp
  have first: "\<exists>msgs. sent s' = sent s @ msgs \<and>
           (\<forall>m \<in> set msgs.
              (\<forall>h \<in> set (sent_roots (snd m)). \<exists>req \<in> set reqs. \<exists>obj.
                  proves_reachable om st s req \<and> load st (req_hash req) = Some obj \<and>
                  h = lit_hash (toLiteral om obj)) \<and>
              (\<forall>l \<in> sent_literals (snd m). \<exists>req \<in> set reqs. \<exists>obj.
                  proves_reachable om st s req \<and> load st (req_hash req) = Some obj \<and>
                  l \<in> set (subobjectLiterals om obj @ [toLiteral om obj])))"
  proof (cases "length (rootHashes (send_context acc)) > 0")
    case False
    with s' show ?thesis by (intro exI[of _ "[]"]) simp
  next
    case True
    let ?m = "(destination, SendObjs (objHash s) (toLiteralContext (send_context acc))
                              (ownershipProofs acc) sec)"
    have "sent s' = sent s @ [?m]" using s' True by simp
    moreover have "sent_roots (snd ?m) = rootHashes (send_context acc)"
      "sent_literals (snd ?m) = ran (literals (send_context acc))"
      by (simp_all add: toLiteralContext_def)
    ultimately show ?thesis
      using inv unfolding from_reachable_def by (intro exI[of _ "[?m]"]) simp
  qed
  from sendRequestedAll_filter[of om st sec s reqs ?init] acc obtain acc2 where
    acc2: "sendRequestedAll om st sec s (filter (proves_reachable om st s) reqs) ?init = Inr acc2"
    and same: "same_reply acc acc2"
    by (auto elim!: rel_sum.cases)
  from same have "?reply acc2 = ?reply acc" by (simp add: same_reply_def)
  with acc2 s' have "tryToSendObjects om st destination
                      (filter (proves_reachable om st s) reqs) sec s = Inr (sendLater acc2, s')"
    by (simp add: tryToSendObjects_def)
  with first show ?thesis by blast
qed

lemma tryToSendObjects_example:
  "tryToSendObjects literal_objects example_store ''peer''
     [\<lparr>req_hash = ''op1'', dependencyChain = []\<rparr>, \<lparr>req_hash = ''x'', dependencyChain = [''op1'']\<rparr>]
     ''sec'' example_agent =
   Inr ([], example_agent\<lparr>sent :=
      [(''peer'', SendObjs ''obj''
          \<lparr>lc_rootHashes = [''op1''],
           lc_literals = [''op1'' \<mapsto> example_op ''op1''
              [\<lparr>dep_hash = ''id1'', dep_path = ''author'', dep_kind = Reference\<rparr>]]\<rparr>
          [\<lparr>proof_hash = ''id1'', ownershipProofHash = ''id1sec''\<rparr>] ''sec'')]\<rparr>)"
  by (simp add: tryToSendObjects_def sendRequested_def example_store_def literal_objects_def
        example_agent_def new_TerminalOpsSyncAgent_def example_op_def shouldAcceptMutationOp_def
        indexOf_def toContext_def new_Context_def toLiteralContext_def Let_def)


theorem tryToSendObjects_only_reachable_witness:
  "tryToSendObjects literal_objects example_store ''peer''
     [\<lparr>req_hash = ''op1'', dependencyChain = []\<rparr>, \<lparr>req_hash = ''x'', dependencyChain = [''op1'']\<rparr>]
     ''sec'' example_agent =
   Inr ([], example_agent\<lparr>sent :=
      [(''peer'', SendObjs ''obj''
          \<lparr>lc_rootHashes = [''op1''],
           lc_literals = [''op1'' \<mapsto> example_op ''op1''
              [\<lparr>dep_hash = ''id1'', dep_path = ''author'', dep_kind = Reference\<rparr>]]\<rparr>
          [\<lparr>proof_hash = ''id1'', ownershipProofHash = ''id1sec''\<rparr>] ''sec'')]\<rparr>) \<and>
   proves_reachable literal_objects example_store example_agent
     \<lparr>req_hash = ''op1'', dependencyChain = []\<rparr> \<and>
   \<not> proves_reachable literal_objects example_store example_agent
     \<lparr>req_hash = ''x'', dependencyChain = [''op1'']\<rparr> \<and>
   (\<exists>later'. tryToSendObjects literal_objects example_store ''peer''
       (filter (proves_reachable literal_objects example_store example_agent)
          [\<lparr>req_hash = ''op1'', dependencyChain = []\<rparr>,
           \<lparr>req_hash = ''x'', dependencyChain = [''op1'']\<rparr>])
       ''sec'' example_agent =
     Inr (later', example_agent\<lparr>sent :=
      [(''peer'', SendObjs ''obj''
          \<lparr>lc_rootHashes = [''op1''],
           lc_literals = [''op1'' \<mapsto> example_op ''op1''
              [\<lparr>dep_hash = ''id1'', dep_path = ''author'', dep_kind = Reference\<rparr>]]\<rparr>
          [\<lparr>proof_hash = ''id1'', ownershipProofHash = ''id1sec''\<rparr>] ''sec'')]\<rparr>))"
proof -
  have a: "proves_reachable literal_objects example_store example_agent
     \<lparr>req_hash = ''op1'', dependencyChain = []\<rparr>"
    by (simp add: proves_reachable_def example_store_def literal_objects_def example_agent_def
          new_TerminalOpsSyncAgent_def example_op_def shouldAcceptMutationOp_def indexOf_def
          Let_def)
  have b: "\<not> proves_reachable literal_objects example_store example_agent
     \<lparr>req_hash = ''x'', dependencyChain = [''op1'']\<rparr>"
    by (simp add: proves_reachable_def example_store_def example_op_def Let_def)
  from tryToSendObjects_only_reachable [OF tryToSendObjects_example] tryToSendObjects_example a b
  show ?thesis by blast
qed

subsection \<open>Receiving objects\<close>

lemma checkOmittedDep_cases:
  "checkOmittedDep om st sec proofs (tr, c) (h, ch) =
     (if ownership_proved om st sec proofs h
      then (tr, c\<lparr>objects := (objects c)(h := load st h)\<rparr>)
      else (tr @ [\<lparr> req_hash = h, dependencyChain = ch \<rparr>], c))"
  by (auto simp: checkOmittedDep_def ownership_proved_def split: option.splits)

lemma checkOmittedDep_fold:
  "foldl (checkOmittedDep om st sec proofs) (tr, c) deps = (tr', c') \<Longrightarrow>
   tr' = tr @ map (\<lambda>(h, ch). \<lparr> req_hash = h, dependencyChain = ch \<rparr>)
               (filter (\<lambda>(h, ch). \<not> ownership_proved om st sec proofs h) deps) \<and>
   (\<forall>h. objects c' h = (if h \<in> fst ` set deps \<and> ownership_proved om st sec proofs h
                         then load st h else objects c h)) \<and>
   rootHashes c' = rootHashes c \<and> literals c' = literals c"
proof (induction deps arbitrary: tr c)
  case Nil
  then show ?case by simp
next
  case (Cons d deps)
  obtain h ch where d: "d = (h, ch)" by (cases d)
  show ?case
  proof (cases "ownership_proved om st sec proofs h")
    case True
    with Cons.prems d have
      "foldl (checkOmittedDep om st sec proofs) (tr, c\<lparr>objects := (objects c)(h := load st h)\<rparr>) deps
       = (tr', c')" by (simp add: checkOmittedDep_cases)
    from Cons.IH[OF this] True d show ?thesis by auto
  next
    case False
    with Cons.prems d have
      "foldl (checkOmittedDep om st sec proofs) (tr @ [\<lparr> req_hash = h, dependencyChain = ch \<rparr>], c) deps
       = (tr', c')" by (simp add: checkOmittedDep_cases)
    from Cons.IH[OF this] False d show ?thesis by auto
  qed
qed


lemma requestOne_started_update:
  "requestOne now sec dest (nr, s\<lparr>started := x\<rparr>) req =
     map_prod id (\<lambda>s. s\<lparr>started := x\<rparr>) (requestOne now sec dest (nr, s) req)"
  by (auto simp: requestOne_def expectIncomingObject_def insertObjectMovement_def Let_def
        split: option.splits)

lemma requestOne_fold_started_update:
  "foldl (requestOne now sec dest) (nr, s\<lparr>started := x\<rparr>) reqs =
     map_prod id (\<lambda>s. s\<lparr>started := x\<rparr>) (foldl (requestOne now sec dest) (nr, s) reqs)"
proof (induction reqs arbitrary: nr s)
  case Nil
  then show ?case by simp
next
  case (Cons r reqs)
  obtain nr1 s1 where 1: "requestOne now sec dest (nr, s) r = (nr1, s1)"
    by (cases "requestOne now sec dest (nr, s) r")
  then show ?case using Cons.IH[of nr1 s1] by (simp add: requestOne_started_update)
qed

lemma sendRequestObjsMessage_started_update:
  "sendRequestObjsMessage now sec dest reqs (s\<lparr>started := x\<rparr>) =
     (sendRequestObjsMessage now sec dest reqs s)\<lparr>started := x\<rparr>"
  by (cases "foldl (requestOne now sec dest) ([], s) reqs")
     (simp add: sendRequestObjsMessage_def requestOne_fold_started_update)

lemma requestOne_started: "started (snd (requestOne now sec dest acc req)) = started (snd acc)"
  by (cases acc)
     (auto simp: requestOne_def expectIncomingObject_def insertObjectMovement_def Let_def
        split: option.splits)

lemma requestOne_fold_started:
  "started (snd (foldl (requestOne now sec dest) acc reqs)) = started (snd acc)"
  by (induction reqs arbitrary: acc) (simp_all add: requestOne_started)

lemma sendRequestObjsMessage_started:
  "started (sendRequestObjsMessage now sec dest reqs s) = started s"
  using requestOne_fold_started[of now sec dest "([], s)" reqs]
  by (cases "foldl (requestOne now sec dest) ([], s) reqs") (simp add: sendRequestObjsMessage_def)

text \<open>
  What the loop over the missing dependencies does with each of them, while a root that
  is expected from the source under the secret of the message is processed and
  \<open>findMissingDeps\<close> returns. A dependency the store holds, with a proof that is the
  hash of the stored object keyed with the secret, is folded into the context and is not
  put into \<open>toRequest\<close>. Any other is put into \<open>toRequest\<close> with its chain and is not
  folded, and the root is not processed as complete; \<open>toRequest\<close> reaches
  \<open>sendRequestObjsMessage\<close> when \<open>shouldAcceptMutationOpLiteral\<close> returns for the
  root's literal.
\<close>

lemma receiveRoot_omitted_dependency:
  assumes "map_of (incomingObjects s) rootHash = Some m"
    and "map_of m src = Some inc"
    and "mv_secret inc = sec"
    and "findMissingDeps depth context rootHash [] [] = Some missing"
    and "(depHash, depChain) \<in> set missing"
    and "toRequest = fst (foldl (checkOmittedDep om st sec (ownershipProofForHash omittedDeps))
                            ([], context) missing)"
    and "receiveRoot om st now rng depth src (ownershipProofForHash omittedDeps)
           (Some sec) (context, s) rootHash = (context', s')"
  shows "(ownership_proved om st sec (ownershipProofForHash omittedDeps) depHash \<longrightarrow>
            objects context' depHash = load st depHash \<and> load st depHash \<noteq> None \<and>
            depHash \<notin> req_hash ` set toRequest) \<and>
         (\<not> ownership_proved om st sec (ownershipProofForHash omittedDeps) depHash \<longrightarrow>
            \<lparr> req_hash = depHash, dependencyChain = depChain \<rparr> \<in> set toRequest \<and>
            objects context' depHash = objects context depHash \<and>
            (\<forall>c. ProcessReceivedObject rootHash c \<in> set (started s') \<longrightarrow>
                 ProcessReceivedObject rootHash c \<in> set (started s)) \<and>
            (\<forall>lit accept. literals context rootHash = Some lit \<and>
                 shouldAcceptMutationOpLiteral s lit = Inr accept \<longrightarrow>
                 sent s' = sent (sendRequestObjsMessage now (rng rootHash) src toRequest s)))"
proof -
  let ?proofs = "ownershipProofForHash omittedDeps"
  let ?ok = "ownership_proved om st sec ?proofs"
  obtain c1 where f: "foldl (checkOmittedDep om st sec ?proofs) ([], context) missing
                        = (toRequest, c1)"
    using assms(6) by (cases "foldl (checkOmittedDep om st sec ?proofs) ([], context) missing")
      simp
  from checkOmittedDep_fold[OF f] have
    tr: "toRequest = map (\<lambda>(h, ch). \<lparr> req_hash = h, dependencyChain = ch \<rparr>)
               (filter (\<lambda>(h, ch). \<not> ?ok h) missing)"
    and ob: "\<And>h. objects c1 h = (if h \<in> fst ` set missing \<and> ?ok h
                         then load st h else objects context h)"
    and li: "literals c1 = literals context"
    by auto
  define s1 where "s1 = (if length toRequest = 0
                         then s\<lparr>started := started s @ [ProcessReceivedObject rootHash c1]\<rparr>
                         else
                           (case literals c1 rootHash of
                              None \<Rightarrow> s
                            | Some lit \<Rightarrow>
                                (case shouldAcceptMutationOpLiteral s lit of
                                   Inl e \<Rightarrow> s
                                 | Inr accept \<Rightarrow>
                                     sendRequestObjsMessage now (rng rootHash) src toRequest
                                       (if accept
                                        then s\<lparr>started := started s @
                                               [ProcessIncompleteOp src rootHash c1 toRequest]\<rparr>
                                        else s))))"
  have res: "context' = c1" "s' = s1\<lparr>incomingObjects := AList.delete rootHash (incomingObjects s1)\<rparr>"
    using assms(1,2,3,4,7) f by (simp_all add: receiveRoot_def s1_def Let_def)
  have proved: "objects context' depHash = load st depHash \<and> load st depHash \<noteq> None \<and>
            depHash \<notin> req_hash ` set toRequest" if ok: "?ok depHash"
  proof -
    have "depHash \<in> fst ` set missing" using assms(5) by force
    with ok have "objects context' depHash = load st depHash" by (simp add: res ob)
    moreover from ok have "load st depHash \<noteq> None"
      by (auto simp: ownership_proved_def split: option.splits)
    moreover from ok have "depHash \<notin> req_hash ` set toRequest" by (auto simp: tr)
    ultimately show ?thesis by blast
  qed
  have unproved: "\<lparr> req_hash = depHash, dependencyChain = depChain \<rparr> \<in> set toRequest \<and>
            objects context' depHash = objects context depHash \<and>
            (\<forall>c. ProcessReceivedObject rootHash c \<in> set (started s') \<longrightarrow>
                 ProcessReceivedObject rootHash c \<in> set (started s)) \<and>
            (\<forall>lit accept. literals context rootHash = Some lit \<and>
                 shouldAcceptMutationOpLiteral s lit = Inr accept \<longrightarrow>
                 sent s' = sent (sendRequestObjsMessage now (rng rootHash) src toRequest s))"
    if nok: "\<not> ?ok depHash"
  proof -
    have mem: "\<lparr> req_hash = depHash, dependencyChain = depChain \<rparr> \<in> set toRequest"
      using assms(5) nok unfolding tr by force
    then have ne: "length toRequest \<noteq> 0" by auto
    have o: "objects context' depHash = objects context depHash" using nok by (simp add: res ob)
    have st: "started s' = started s \<or>
              started s' = started s @ [ProcessIncompleteOp src rootHash c1 toRequest]"
      using ne unfolding res s1_def
      by (auto simp: sendRequestObjsMessage_started split: option.splits sum.splits)
    have se: "sent s' = sent (sendRequestObjsMessage now (rng rootHash) src toRequest s)"
      if "literals context rootHash = Some lit" "shouldAcceptMutationOpLiteral s lit = Inr accept"
      for lit accept
      using ne that unfolding res s1_def li
      by (simp add: sendRequestObjsMessage_started_update)
    from mem o st se show ?thesis by auto
  qed
  from proved unproved show ?thesis by blast
qed




lemma example_missing:
  "findMissingDeps 1000
     (fromLiteralContext \<lparr>lc_rootHashes = [''id2''], lc_literals = [''id2'' \<mapsto> example_key_holder t]\<rparr>
        :: Literal Context)
     ''id2'' [] [] = Some [(''key2'', [''id2''])]"
  by (simp add: findMissingDeps.simps fromLiteralContext_def example_key_holder_def)

lemma receiveRoot_example:
  "ownership_proved literal_objects
     \<lparr>load = [''id1'' \<mapsto> example_identity], loadLiteral = [''id1'' \<mapsto> example_identity]\<rparr>
     ''sec'' (ownershipProofForHash example_proofs) ''id1'' \<and>
   \<not> ownership_proved literal_objects
     \<lparr>load = [''id1'' \<mapsto> example_identity], loadLiteral = [''id1'' \<mapsto> example_identity]\<rparr>
     ''sec'' (ownershipProofForHash example_proofs) ''id2'' \<and>
   objects (fst (receiveRoot literal_objects
     \<lparr>load = [''id1'' \<mapsto> example_identity], loadLiteral = [''id1'' \<mapsto> example_identity]\<rparr>
     0 (\<lambda>h. ''sec2'') 1000 ''peerA''
     (ownershipProofForHash example_proofs) (Some ''sec'') (example_received, example_receiver)
     ''op1'')) ''id1'' = Some example_identity \<and>
   objects (fst (receiveRoot literal_objects
     \<lparr>load = [''id1'' \<mapsto> example_identity], loadLiteral = [''id1'' \<mapsto> example_identity]\<rparr>
     0 (\<lambda>h. ''sec2'') 1000 ''peerA''
     (ownershipProofForHash example_proofs) (Some ''sec'') (example_received, example_receiver)
     ''op1'')) ''id2'' = None \<and>
   sent (snd (receiveRoot literal_objects
     \<lparr>load = [''id1'' \<mapsto> example_identity], loadLiteral = [''id1'' \<mapsto> example_identity]\<rparr>
     0 (\<lambda>h. ''sec2'') 1000 ''peerA''
     (ownershipProofForHash example_proofs) (Some ''sec'') (example_received, example_receiver)
     ''op1'')) =
     [(''peerA'', RequestObjs ''obj'' [\<lparr>req_hash = ''id2'', dependencyChain = [''op1'']\<rparr>] ''sec2'')]"
proof -
  let ?st = "\<lparr>load = [''id1'' \<mapsto> example_identity], loadLiteral = [''id1'' \<mapsto> example_identity]\<rparr>"
  let ?missing = "[(''id1'', [''op1'']), (''id2'', [''op1''])]"
  let ?mv = "\<lparr>mv_timeout = 90000, mv_secret = ''sec'', mv_dependencyChain = []\<rparr>"
  let ?r = "receiveRoot literal_objects ?st 0 (\<lambda>h. ''sec2'') 1000 ''peerA''
     (ownershipProofForHash example_proofs) (Some ''sec'') (example_received, example_receiver)
     ''op1''"
  have m1: "map_of (incomingObjects example_receiver) ''op1'' = Some [(''peerA'', ?mv)]"
    by (simp add: example_receiver_def)
  have m2: "map_of [(''peerA'', ?mv)] ''peerA'' = Some ?mv" by simp
  have m3: "mv_secret ?mv = ''sec''" by simp
  have fm: "findMissingDeps 1000 example_received ''op1'' [] [] = Some ?missing"
    by (simp add: findMissingDeps.simps example_received_def fromLiteralContext_def
          example_op_def)
  have d1: "(''id1'', [''op1'']) \<in> set ?missing" by simp
  have d2: "(''id2'', [''op1'']) \<in> set ?missing" by simp
  have r: "?r = (fst ?r, snd ?r)" by simp
  have p: "ownershipProofForHash example_proofs = [''id1'' \<mapsto> ''id1sec'', ''id2'' \<mapsto> ''id2sec'']"
    by (simp add: ownershipProofForHash_def example_proofs_def)
  have o1: "ownership_proved literal_objects ?st ''sec'' (ownershipProofForHash example_proofs) ''id1''"
    unfolding p by (simp add: ownership_proved_def literal_objects_def example_identity_def)
  have o2: "\<not> ownership_proved literal_objects ?st ''sec'' (ownershipProofForHash example_proofs) ''id2''"
    unfolding p by (simp add: ownership_proved_def)
  have tr: "fst (foldl (checkOmittedDep literal_objects ?st ''sec'' (ownershipProofForHash example_proofs))
                   ([], example_received) ?missing)
            = [\<lparr>req_hash = ''id2'', dependencyChain = [''op1'']\<rparr>]"
    unfolding p by (simp add: checkOmittedDep_def literal_objects_def example_identity_def)
  have lit: "literals example_received ''op1'' = Some (example_op ''op1''
           [\<lparr>dep_hash = ''id1'', dep_path = ''author'', dep_kind = Reference\<rparr>,
            \<lparr>dep_hash = ''id2'', dep_path = ''editor'', dep_kind = Reference\<rparr>])"
    by (simp add: example_received_def fromLiteralContext_def)
  have acc: "shouldAcceptMutationOpLiteral example_receiver (example_op ''op1''
           [\<lparr>dep_hash = ''id1'', dep_path = ''author'', dep_kind = Reference\<rparr>,
            \<lparr>dep_hash = ''id2'', dep_path = ''editor'', dep_kind = Reference\<rparr>]) = Inr True"
    by (simp add: shouldAcceptMutationOpLiteral_def example_op_def example_receiver_def
          example_agent_def new_TerminalOpsSyncAgent_def indexOf_def)
  have snt: "sent (sendRequestObjsMessage 0 ''sec2'' ''peerA''
                [\<lparr>req_hash = ''id2'', dependencyChain = [''op1'']\<rparr>] example_receiver)
          = [(''peerA'', RequestObjs ''obj'' [\<lparr>req_hash = ''id2'', dependencyChain = [''op1'']\<rparr>] ''sec2'')]"
    by (simp add: sendRequestObjsMessage_def requestOne_def expectIncomingObject_def
          insertObjectMovement_def example_receiver_def example_agent_def
          new_TerminalOpsSyncAgent_def Let_def)
  have old: "objects example_received ''id2'' = None"
    by (simp add: example_received_def fromLiteralContext_def)
  have ld: "load ?st ''id1'' = Some example_identity" by simp
  note A = receiveRoot_omitted_dependency [OF m1 m2 m3 fm d1 refl r]
  note B = receiveRoot_omitted_dependency [OF m1 m2 m3 fm d2 refl r]
  from A o1 ld have 1: "objects (fst ?r) ''id1'' = Some example_identity" by simp
  from B o2 old have 2: "objects (fst ?r) ''id2'' = None" by simp
  from B o2 lit acc have "sent (snd ?r) = sent (sendRequestObjsMessage 0 ''sec2'' ''peerA''
      (fst (foldl (checkOmittedDep literal_objects ?st ''sec'' (ownershipProofForHash example_proofs))
                   ([], example_received) ?missing)) example_receiver)"
    by blast
  then have 3: "sent (snd ?r) =
     [(''peerA'', RequestObjs ''obj'' [\<lparr>req_hash = ''id2'', dependencyChain = [''op1'']\<rparr>] ''sec2'')]"
    unfolding tr snt .
  from o1 o2 1 2 3 show ?thesis by blast
qed


lemma set_update_subset: "set (AList.update k v al) \<subseteq> insert (k, v) (set al)"
  by (induction al) auto

lemma findMissingDeps_entries:
  "(findMissingDeps depth ctx h chain missing = Some missing' \<Longrightarrow>
      context_path ctx h chain \<Longrightarrow> last (h # chain) = r \<Longrightarrow>
      list_all (missing_entry ctx r) missing \<Longrightarrow> list_all (missing_entry ctx r) missing')"
  "(findMissingDeps_loop depth ctx h chain deps missing = Some missing' \<Longrightarrow>
      context_path ctx h chain \<Longrightarrow> last (h # chain) = r \<Longrightarrow>
      (\<exists>lit. literals ctx h = Some lit \<and> set deps \<subseteq> set (dependencies lit)) \<Longrightarrow>
      list_all (missing_entry ctx r) missing \<Longrightarrow> list_all (missing_entry ctx r) missing')"
proof (induction depth ctx h chain missing and depth ctx h chain deps missing
       arbitrary: missing' and missing'
       rule: findMissingDeps_findMissingDeps_loop.induct)
  case (1 depth ctx h chain missing)
  from "1.prems"(1) have d: "depth \<noteq> 0"
    by (auto simp: findMissingDeps.simps split: if_splits)
  show ?case
  proof (cases "literals ctx h")
    case None
    have new: "missing_entry ctx r (h, chain)"
      using None "1.prems"(2,3) by (simp add: missing_entry_def)
    have "list_all (missing_entry ctx r) (AList.update h chain missing)"
      using set_update_subset[of h chain missing] new "1.prems"(4)
      by (auto simp: list_all_iff)
    with None d "1.prems"(1,4) show ?thesis
      by (auto simp: findMissingDeps.simps split: option.splits if_splits)
  next
    case (Some lit)
    with d "1.prems"(1) have
      "findMissingDeps_loop (depth - 1) ctx h chain (dependencies lit) missing = Some missing'"
      by (simp add: findMissingDeps.simps)
    from "1.IH"[OF d Some this "1.prems"(2,3) _ "1.prems"(4)] Some show ?thesis by auto
  qed
next
  case (2 depth ctx h chain missing)
  then show ?case by simp
next
  case (3 depth ctx h chain dep deps missing)
  from "3.prems"(1) obtain m1 where
    a: "findMissingDeps depth ctx (dep_hash dep) (h # chain) missing = Some m1"
    and b: "findMissingDeps_loop depth ctx h chain deps m1 = Some missing'"
    by (auto simp: Let_def split: option.splits)
  from "3.prems"(4) obtain lit where lit: "literals ctx h = Some lit"
    "set (dep # deps) \<subseteq> set (dependencies lit)" by blast
  have path: "context_path ctx (dep_hash dep) (h # chain)"
    using lit "3.prems"(2) by auto
  have lst: "last (dep_hash dep # h # chain) = r" using "3.prems"(3) by simp
  have "list_all (missing_entry ctx r) m1"
    using "3.IH"(1)[OF refl a path lst "3.prems"(5)] .
  moreover have "\<exists>lit. literals ctx h = Some lit \<and> set deps \<subseteq> set (dependencies lit)"
    using lit by auto
  ultimately show ?case
    using "3.IH"(2)[OF refl a b "3.prems"(2,3)] by blast
qed

lemma findMissingDeps_chain:
  assumes "findMissingDeps depth ctx rootHash [] [] = Some missing"
    and "(depHash, depChain) \<in> set missing"
  shows "literals ctx depHash = None \<and> context_path ctx depHash depChain \<and>
         last (depHash # depChain) = rootHash"
  using findMissingDeps_entries(1)[OF assms(1), of rootHash] assms(2)
  by (auto simp: list_all_iff missing_entry_def)

text \<open>
  C2. The claim: every missing dependency that the receiver does not hold, or whose
  ownership proof is absent or wrong, is requested again from the sender. The code: such
  a dependency is put into \<open>toRequest\<close>, but \<open>shouldAcceptMutationOpLiteral\<close> is called
  on the root's literal before \<open>sendRequestObjsMessage\<close>, and it throws for a literal
  without a \<open>targetObject\<close> field; the exception is caught, nothing is requested and the
  entry of the root is deleted. The receiver below expects the identity \<open>id2\<close>, whose
  key \<open>key2\<close> it does not hold: \<open>key2\<close> is a missing dependency without a valid proof,
  no message is sent and \<open>incomingObjects\<close> is left empty. With a \<open>targetObject\<close>
  field on the same literal, of a class that is not accepted, the request for \<open>key2\<close> is
  sent.
\<close>

theorem receiveObjects_drops_request_of_non_op_root:
  "findMissingDeps 1000
     (fromLiteralContext
        \<lparr>lc_rootHashes = [''id2''], lc_literals = [''id2'' \<mapsto> example_key_holder None]\<rparr>
        :: Literal Context)
     ''id2'' [] [] = Some [(''key2'', [''id2''])] \<and>
   \<not> ownership_proved literal_objects empty_store ''sec2''
       (ownershipProofForHash [\<lparr>proof_hash = ''key2'', ownershipProofHash = ''key2sec2''\<rparr>])
       ''key2'' \<and>
   sent (receiveObjects literal_objects empty_store 0 (\<lambda>h. ''sec3'') 1000 (\<lambda>c. True) ''peerA''
           \<lparr>lc_rootHashes = [''id2''], lc_literals = [''id2'' \<mapsto> example_key_holder None]\<rparr>
           [\<lparr>proof_hash = ''key2'', ownershipProofHash = ''key2sec2''\<rparr>] (Some ''sec2'')
           example_dep_receiver) = [] \<and>
   incomingObjects
     (receiveObjects literal_objects empty_store 0 (\<lambda>h. ''sec3'') 1000 (\<lambda>c. True) ''peerA''
           \<lparr>lc_rootHashes = [''id2''], lc_literals = [''id2'' \<mapsto> example_key_holder None]\<rparr>
           [\<lparr>proof_hash = ''key2'', ownershipProofHash = ''key2sec2''\<rparr>] (Some ''sec2'')
           example_dep_receiver) = [] \<and>
   sent (receiveObjects literal_objects empty_store 0 (\<lambda>h. ''sec3'') 1000 (\<lambda>c. True) ''peerA''
           \<lparr>lc_rootHashes = [''id2''],
            lc_literals = [''id2'' \<mapsto> example_key_holder (Some ''other'')]\<rparr>
           [\<lparr>proof_hash = ''key2'', ownershipProofHash = ''key2sec2''\<rparr>] (Some ''sec2'')
           example_dep_receiver) =
     [(''peerA'', RequestObjs ''obj'' [\<lparr>req_hash = ''key2'', dependencyChain = [''id2'']\<rparr>]
                   ''sec3'')]"
proof -
  have p: "\<not> ownership_proved literal_objects empty_store ''sec2''
       (ownershipProofForHash [\<lparr>proof_hash = ''key2'', ownershipProofHash = ''key2sec2''\<rparr>])
       ''key2''"
    by (simp add: ownership_proved_def empty_store_def)
  have r: "receiveObjects literal_objects empty_store 0 (\<lambda>h. ''sec3'') 1000 (\<lambda>c. True) ''peerA''
           \<lparr>lc_rootHashes = [''id2''], lc_literals = [''id2'' \<mapsto> example_key_holder None]\<rparr>
           [\<lparr>proof_hash = ''key2'', ownershipProofHash = ''key2sec2''\<rparr>] (Some ''sec2'')
           example_dep_receiver = example_dep_receiver\<lparr>incomingObjects := []\<rparr>"
    by (simp add: receiveObjects_def receiveRoot_def checkRootHashes_def findMissingDeps.simps
          checkOmittedDep_def empty_store_def shouldAcceptMutationOpLiteral_def
          example_dep_receiver_def fromLiteralContext_def example_key_holder_def Let_def)
  have e: "sent example_dep_receiver = []"
    by (simp add: example_dep_receiver_def example_agent_def new_TerminalOpsSyncAgent_def)
  have q: "sent (receiveObjects literal_objects empty_store 0 (\<lambda>h. ''sec3'') 1000 (\<lambda>c. True) ''peerA''
           \<lparr>lc_rootHashes = [''id2''],
            lc_literals = [''id2'' \<mapsto> example_key_holder (Some ''other'')]\<rparr>
           [\<lparr>proof_hash = ''key2'', ownershipProofHash = ''key2sec2''\<rparr>] (Some ''sec2'')
           example_dep_receiver) =
     [(''peerA'', RequestObjs ''obj'' [\<lparr>req_hash = ''key2'', dependencyChain = [''id2'']\<rparr>]
                   ''sec3'')]"
    by (simp add: receiveObjects_def receiveRoot_def checkRootHashes_def findMissingDeps.simps
          checkOmittedDep_def empty_store_def shouldAcceptMutationOpLiteral_def
          example_dep_receiver_def fromLiteralContext_def example_key_holder_def Let_def
          sendRequestObjsMessage_def requestOne_def expectIncomingObject_def
          insertObjectMovement_def example_agent_def new_TerminalOpsSyncAgent_def indexOf_def)
  from example_missing[of None] p r e q show ?thesis by simp
qed

end
